theory Spec2Isabelle
  imports Main "HOL-Library.Multiset" "HOL-Library.Signed_Division"
begin

section \<open>Slices, indices and runtime panics\<close>

text \<open>
  A Go slice \<open>[]int\<close> is a list; the elements are Go \<open>int\<close>s, which the sorters only
  compare and move, so an element is modelled by its signed value. Indices and sizes are
  Go \<open>int\<close>s too and are modelled as unbounded \<open>int\<close>: every index the code computes from
  a valid range lies between \<open>-1\<close> and the length of the slice, far from the 64-bit
  limits. An access \<open>arr[i]\<close> outside the slice panics in Go; a function that can panic
  returns a sum, \<open>Inl\<close> carrying the contents of the slice at the moment of the panic
  and \<open>Inr\<close> the normal result.
\<close>

definition inb :: "'a list \<Rightarrow> int \<Rightarrow> bool" where
  "inb arr i \<longleftrightarrow> 0 \<le> i \<and> i < int (length arr)"

definition swap :: "'a list \<Rightarrow> int \<Rightarrow> int \<Rightarrow> 'a list" where
  \<comment> \<open>\<open>arr[i], arr[j] = arr[j], arr[i]\<close>: both right-hand sides are read first.\<close>
  "swap arr i j = arr[nat i := arr ! nat j, nat j := arr ! nat i]"

section \<open>The hybrid sequential sorter\<close>

subsection \<open>insertionSort\<close>

text \<open>
  The inner loop \<open>for j >= low && arr[j] > key { arr[j+1] = arr[j]; j-- }\<close>; it returns
  the slice and the final \<open>j\<close>.
\<close>

function insertionSort_shift :: "int list \<Rightarrow> int \<Rightarrow> int \<Rightarrow> int \<Rightarrow> int list + int list \<times> int" where
  "insertionSort_shift arr low key j =
     (if j \<ge> low then
        (if \<not> inb arr j then Inl arr
         else if arr ! nat j > key then
           (if \<not> inb arr (j + 1) then Inl arr
            else insertionSort_shift (arr[nat (j + 1) := arr ! nat j]) low key (j - 1))
         else Inr (arr, j))
      else Inr (arr, j))"
  by pat_completeness auto
termination
  by (relation "measure (\<lambda>(arr, low, key, j). nat (j + 1 - low))") auto

declare insertionSort_shift.simps [simp del]

text \<open>The outer loop \<open>for i := low + 1; i <= high; i++\<close>, started at \<open>i\<close>.\<close>

function insertionSort_from :: "int list \<Rightarrow> int \<Rightarrow> int \<Rightarrow> int \<Rightarrow> int list + int list" where
  "insertionSort_from arr low high i =
     (if i \<le> high then
        (if \<not> inb arr i then Inl arr
         else
           (case insertionSort_shift arr low (arr ! nat i) (i - 1) of
              Inl a \<Rightarrow> Inl a
            | Inr (a, j) \<Rightarrow>
                (if \<not> inb a (j + 1) then Inl a
                 else insertionSort_from (a[nat (j + 1) := arr ! nat i]) low high (i + 1))))
      else Inr arr)"
  by pat_completeness auto
termination
  by (relation "measure (\<lambda>(arr, low, high, i). nat (high + 1 - i))") auto

declare insertionSort_from.simps [simp del]

definition insertionSort :: "int list \<Rightarrow> int \<Rightarrow> int \<Rightarrow> int list + int list" where
  "insertionSort arr low high = insertionSort_from arr low high (low + 1)"

subsection \<open>medianOfThree and partition3Way\<close>

text \<open>
  \<open>medianOfThree\<close> compares and swaps three positions and leaves the median at \<open>a\<close>.
  Each comparison reads both of its positions, so it panics on the first one out of range,
  after the swaps already made.
\<close>

definition medianOfThree :: "int list \<Rightarrow> int \<Rightarrow> int \<Rightarrow> int \<Rightarrow> int list + int list" where
  "medianOfThree arr a b c =
     (if \<not> (inb arr a \<and> inb arr b) then Inl arr
      else
        let arr1 = (if arr ! nat a > arr ! nat b then swap arr a b else arr) in
        if \<not> inb arr1 c then Inl arr1
        else
          let arr2 = (if arr1 ! nat b > arr1 ! nat c then swap arr1 b c else arr1);
              arr3 = (if arr2 ! nat a > arr2 ! nat b then swap arr2 a b else arr2)
          in Inr (swap arr3 a b))"

text \<open>
  The scan \<open>for i < gt\<close> of \<open>partition3Way\<close>, with its three pointers; it returns the
  slice and the pair \<open>(lt, gt - 1)\<close>.
\<close>

function partition3Way_loop ::
    "int list \<Rightarrow> int \<Rightarrow> int \<Rightarrow> int \<Rightarrow> int \<Rightarrow> int list + int list \<times> int \<times> int" where
  "partition3Way_loop arr pivot lt i gt =
     (if i < gt then
        (if \<not> inb arr i then Inl arr
         else if arr ! nat i < pivot then
           (if \<not> inb arr lt then Inl arr
            else partition3Way_loop (swap arr lt i) pivot (lt + 1) (i + 1) gt)
         else if arr ! nat i > pivot then
           (if \<not> inb arr (gt - 1) then Inl arr
            else partition3Way_loop (swap arr i (gt - 1)) pivot lt i (gt - 1))
         else partition3Way_loop arr pivot lt (i + 1) gt)
      else Inr (arr, lt, gt - 1))"
  by pat_completeness auto
termination
  by (relation "measure (\<lambda>(arr, pivot, lt, i, gt). nat (gt - i))") auto

declare partition3Way_loop.simps [simp del]

text \<open>Go's \<open>/\<close> on \<open>int\<close> truncates towards zero: \<open>sdiv\<close>.\<close>

definition partition3Way :: "int list \<Rightarrow> int \<Rightarrow> int \<Rightarrow> int list + int list \<times> int \<times> int" where
  "partition3Way arr low high =
     (case medianOfThree arr low ((low + high) sdiv 2) high of
        Inl a \<Rightarrow> Inl a
      | Inr a \<Rightarrow>
          (if \<not> inb a low then Inl a
           else partition3Way_loop a (a ! nat low) low (low + 1) (high + 1)))"

subsection \<open>quickSortHelper and quickSort\<close>

text \<open>
  The loop \<open>for low < high\<close> of \<open>quickSortHelper\<close>: the recursive call sorts the smaller
  zone and the next iteration (the tail call) the other one, on the slice the recursive
  call left.
\<close>

function quickSortHelper :: "int list \<Rightarrow> int \<Rightarrow> int \<Rightarrow> int list + int list" where
  "quickSortHelper arr low high =
     (if low < high then
        (if high - low + 1 \<le> 16 then insertionSort arr low high
         else
           (case partition3Way arr low high of
              Inl a \<Rightarrow> Inl a
            | Inr (a, lt, gt) \<Rightarrow>
                (if lt - low < high - gt then
                   (case quickSortHelper a low (lt - 1) of
                      Inl b \<Rightarrow> Inl b
                    | Inr b \<Rightarrow> quickSortHelper b (gt + 1) high)
                 else
                   (case quickSortHelper a (gt + 1) high of
                      Inl b \<Rightarrow> Inl b
                    | Inr b \<Rightarrow> quickSortHelper b low (lt - 1)))))
      else Inr arr)"
  by pat_completeness auto

text \<open>
  The pointers of the scan keep their order, whatever the slice holds: a partition that
  returns has \<open>low \<le> lt \<le> gt \<le> high\<close>. Both zones left to sort are therefore
  strictly smaller than the range, which is why \<open>quickSortHelper\<close> terminates.
\<close>

termination quickSortHelper
proof -
  have loop: "lt \<le> lt' \<and> lt' \<le> gt' \<and> gt' < gt"
    if "partition3Way_loop arr pivot lt i gt = Inr (a, lt', gt')" "lt < i" "i \<le> gt"
    for arr pivot lt i gt a lt' gt'
    using that
  proof (induction arr pivot lt i gt rule: partition3Way_loop.induct)
    case (1 arr pivot lt i gt)
    show ?case
    proof (cases "i < gt")
      case True
      with "1.prems" "1.IH" show ?thesis
        by (subst (asm) partition3Way_loop.simps) (simp split: if_splits)
    next
      case False
      with "1.prems" show ?thesis
        by (subst (asm) partition3Way_loop.simps) simp
    qed
  qed
  have bounds: "low \<le> lt \<and> lt \<le> gt \<and> gt \<le> high"
    if "partition3Way arr low high = Inr (a, lt, gt)" "low \<le> high"
    for arr low high a lt gt
    using that loop[of _ _ low "low + 1" "high + 1" a lt gt]
    by (auto simp: partition3Way_def split: sum.splits if_splits)
  show ?thesis
    by (relation "measure (\<lambda>(arr, low, high). nat (high - low))") (auto dest!: bounds)
qed

declare quickSortHelper.simps [simp del]

definition quickSort :: "int list \<Rightarrow> int list + int list" where
  "quickSort arr =
     (if length arr < 2 then Inr arr else quickSortHelper arr 0 (int (length arr) - 1))"

subsection \<open>The sequential merge sorter\<close>

text \<open>The comparison loop of \<open>merge\<close>; it returns the result so far and both cursors.\<close>

function merge_loop :: "int list \<Rightarrow> int list \<Rightarrow> nat \<Rightarrow> nat \<Rightarrow> int list \<Rightarrow> int list \<times> nat \<times> nat" where
  "merge_loop left right i j result =
     (if i < length left \<and> j < length right then
        (if left ! i \<le> right ! j then merge_loop left right (i + 1) j (result @ [left ! i])
         else merge_loop left right i (j + 1) (result @ [right ! j]))
      else (result, i, j))"
  by pat_completeness auto
termination
  by (relation "measure (\<lambda>(left, right, i, j, result). (length left - i) + (length right - j))") auto

declare merge_loop.simps [simp del]

definition merge :: "int list \<Rightarrow> int list \<Rightarrow> int list" where
  "merge left right =
     (case merge_loop left right 0 0 [] of
        (result, i, j) \<Rightarrow>
          let result1 = (if i < length left then result @ drop i left else result)
          in (if j < length right then result1 @ drop j right else result1))"

text \<open>
  \<open>mergeSort\<close> never writes to its argument: the insertion sort runs on a copy, and
  \<open>merge\<close> builds a new slice. A panic of the insertion sort (\<open>Inl ()\<close>) would leave the
  argument as it was.
\<close>

function mergeSort :: "int list \<Rightarrow> unit + int list" where
  "mergeSort arr =
     (if length arr \<le> 1 then Inr arr
      else if length arr \<le> 16 then
        (case insertionSort arr 0 (int (length arr) - 1) of
           Inl a \<Rightarrow> Inl ()
         | Inr result \<Rightarrow> Inr result)
      else
        (case mergeSort (take (length arr div 2) arr) of
           Inl u \<Rightarrow> Inl u
         | Inr left \<Rightarrow>
             (case mergeSort (drop (length arr div 2) arr) of
                Inl u \<Rightarrow> Inl u
              | Inr right \<Rightarrow> Inr (merge left right))))"
  by pat_completeness auto
termination
  by (relation "measure length") auto

declare mergeSort.simps [simp del]

subsection \<open>The threshold policy\<close>

definition getOptimalThreshold :: "int \<Rightarrow> int \<Rightarrow> int" where
  "getOptimalThreshold totalSize currentSize =
     (if totalSize < 1000 then totalSize
      else if totalSize < 10000 then 300
      else if totalSize < 100000 then 800
      else 1500)"

section \<open>The worker-pool gate\<close>

text \<open>
  \<open>workerPool\<close> is a buffered channel used as a counting semaphore: \<open>cap\<close> is its
  capacity and \<open>occ\<close> the number of slots taken (\<open>len(workerPool)\<close>). Before
  \<open>initWorkerPool\<close> has run the channel is \<open>nil\<close> (\<open>None\<close>). The number of CPUs of the
  host, \<open>runtime.NumCPU()\<close>, is a parameter \<open>ncpu\<close> of the model.

  The goroutines of a sort run concurrently with each other and with any other sort
  that shares the gate, so whether a non-blocking send finds a free slot depends on the
  interleaving. The model runs the two goroutines of a fork one after the other (they
  work on disjoint ranges, or on results of their own) and takes the interleaving as an
  input: every attempt consumes one entry of \<open>contention\<close>, which says whether the
  concurrent holders leave a slot free at that moment (no entry left: they do). The slots
  that other sorts hold when a call starts are part of \<open>occ\<close> and stay taken while the
  call runs. The \<open>trace\<close> is a log of the gate operations, each attempt with the size of
  the zone it was made for.
\<close>

record gate =
  cap :: nat
  occ :: nat

datatype event = TryAcquire int bool | Release

record world =
  workerPool :: "gate option"
  workerPoolOnce :: bool
  contention :: "bool list"
  trace :: "event list"

definition initWorkerPool :: "nat \<Rightarrow> world \<Rightarrow> world" where
  "initWorkerPool ncpu w =
     (if workerPoolOnce w then w
      else w\<lparr>workerPool := Some \<lparr>cap = ncpu, occ = 0\<rparr>, workerPoolOnce := True\<rparr>)"

definition getWorkerPoolStatus :: "world \<Rightarrow> nat \<times> nat" where
  "getWorkerPoolStatus w = (case workerPool w of None \<Rightarrow> (0, 0) | Some g \<Rightarrow> (occ g, cap g))"

text \<open>
  \<open>select { case workerPool <- struct{}{}: ... default: ... }\<close>: the send succeeds when
  a slot is free; on a \<open>nil\<close> channel it never does.
\<close>

definition try_acquire :: "int \<Rightarrow> world \<Rightarrow> bool \<times> world" where
  "try_acquire zone w =
     (let free = (case contention w of [] \<Rightarrow> True | b # bs \<Rightarrow> b);
          ok = (case workerPool w of None \<Rightarrow> False | Some g \<Rightarrow> free \<and> occ g < cap g);
          w1 = w\<lparr>contention := tl (contention w), trace := trace w @ [TryAcquire zone ok]\<rparr>
      in (ok,
          if ok then w1\<lparr>workerPool := map_option (\<lambda>g. g\<lparr>occ := occ g + 1\<rparr>) (workerPool w1)\<rparr>
          else w1))"

text \<open>The deferred \<open><-workerPool\<close>.\<close>

definition release :: "world \<Rightarrow> world" where
  "release w =
     w\<lparr>workerPool := map_option (\<lambda>g. g\<lparr>occ := occ g - 1\<rparr>) (workerPool w),
       trace := trace w @ [Release]\<rparr>"




section \<open>The parallel schedulers\<close>

text \<open>
  A call ends in one of three ways. \<open>Returned\<close>: it returns. \<open>Panicked\<close>: it panics in
  the calling goroutine, where a deferred \<open>recover\<close> of a caller can still stop the
  panic. \<open>Crashed\<close>: a forked goroutine panics; its deferred calls run, and then the Go
  runtime ends the whole program, since nothing in that goroutine recovers. Each carries
  the slice (for the merge sorters: the result) and the world at that moment.
\<close>

datatype 's outcome = Returned 's | Panicked 's | Crashed 's

definition in_world :: "int list + int list \<Rightarrow> world \<Rightarrow> (int list \<times> world) outcome" where
  "in_world r w = (case r of Inl a \<Rightarrow> Panicked (a, w) | Inr a \<Rightarrow> Returned (a, w))"

definition value_in_world :: "unit + int list \<Rightarrow> world \<Rightarrow> (int list \<times> world) outcome" where
  "value_in_world r w = (case r of Inl u \<Rightarrow> Panicked ([], w) | Inr a \<Rightarrow> Returned (a, w))"

text \<open>
  The body of each forked goroutine:
  \<^verbatim>\<open>select { case workerPool <- struct{}{}: defer func() { <-workerPool }(); par
           default: seq }\<close>
  for a zone of the given size. The deferred release runs when \<open>par\<close> returns and when
  it panics.
\<close>

definition fork_task ::
    "int \<Rightarrow> (world \<Rightarrow> ('a \<times> world) outcome) \<Rightarrow> (world \<Rightarrow> ('a \<times> world) outcome) \<Rightarrow> world
       \<Rightarrow> ('a \<times> world) outcome" where
  "fork_task zone par seq w =
     (let (ok, w1) = try_acquire zone w in
      if ok then
        (case par w1 of
           Returned (r, w2) \<Rightarrow> Returned (r, release w2)
         | Panicked (r, w2) \<Rightarrow> Crashed (r, release w2)
         | Crashed x \<Rightarrow> Crashed x)
      else
        (case seq w1 of
           Returned x \<Rightarrow> Returned x
         | Panicked x \<Rightarrow> Crashed x
         | Crashed x \<Rightarrow> Crashed x))"

text \<open>
  \<open>wg.Wait()\<close> joins both goroutines; the model runs the left one, then the right one on
  the slice and the world the left one left.
\<close>

function parallelQuickSortHelper ::
    "int list \<times> world \<Rightarrow> int \<Rightarrow> int \<Rightarrow> int \<Rightarrow> (int list \<times> world) outcome" where
  "parallelQuickSortHelper (arr, w) low high depth =
     (let size = high - low + 1;
          threshold = getOptimalThreshold (int (length arr)) size
      in
      if low < high then
        (if depth \<le> 1 \<or> size \<le> threshold then in_world (quickSortHelper arr low high) w
         else
           (case partition3Way arr low high of
              Inl a \<Rightarrow> Panicked (a, w)
            | Inr (a, lt, gt) \<Rightarrow>
                (case fork_task (lt - low)
                        (\<lambda>w1. parallelQuickSortHelper (a, w1) low (lt - 1) (depth sdiv 2))
                        (in_world (quickSortHelper a low (lt - 1))) w of
                   Returned (b, w2) \<Rightarrow>
                     (case fork_task (high - gt)
                             (\<lambda>w3. parallelQuickSortHelper (b, w3) (gt + 1) high (depth sdiv 2))
                             (in_world (quickSortHelper b (gt + 1) high)) w2 of
                        Returned x \<Rightarrow> Returned x
                      | Panicked x \<Rightarrow> Crashed x
                      | Crashed x \<Rightarrow> Crashed x)
                 | Panicked x \<Rightarrow> Crashed x
                 | Crashed x \<Rightarrow> Crashed x)))
      else Returned (arr, w))"
  by pat_completeness auto
termination
  by (relation "measure (\<lambda>(s, low, high, depth). nat depth)")
     (auto simp: signed_divide_int_def sgn_if)

declare parallelQuickSortHelper.simps [simp del]

definition parallelQuickSort :: "nat \<Rightarrow> int list \<times> world \<Rightarrow> (int list \<times> world) outcome" where
  "parallelQuickSort ncpu s =
     (case s of (arr, w) \<Rightarrow>
        if length arr < 2 then Returned (arr, w)
        else parallelQuickSortHelper (arr, initWorkerPool ncpu w) 0 (int (length arr) - 1) (int ncpu))"

function parallelMergeSortHelper :: "int list \<Rightarrow> int \<Rightarrow> world \<Rightarrow> (int list \<times> world) outcome" where
  "parallelMergeSortHelper arr depth w =
     (if length arr \<le> 1 then Returned (arr, w)
      else
        let threshold = getOptimalThreshold (int (length arr)) (int (length arr)) in
        if depth \<le> 1 \<or> int (length arr) < threshold then value_in_world (mergeSort arr) w
        else
          let mid = length arr div 2 in
          (case fork_task (int (length (take mid arr)))
                  (parallelMergeSortHelper (take mid arr) (depth sdiv 2))
                  (value_in_world (mergeSort (take mid arr))) w of
             Returned (left, w2) \<Rightarrow>
               (case fork_task (int (length (drop mid arr)))
                       (parallelMergeSortHelper (drop mid arr) (depth sdiv 2))
                       (value_in_world (mergeSort (drop mid arr))) w2 of
                  Returned (right, w4) \<Rightarrow> Returned (merge left right, w4)
                | Panicked x \<Rightarrow> Crashed x
                | Crashed x \<Rightarrow> Crashed x)
           | Panicked x \<Rightarrow> Crashed x
           | Crashed x \<Rightarrow> Crashed x))"
  by pat_completeness auto
termination
  by (relation "measure (\<lambda>(arr, depth, w). nat depth)")
     (auto simp: signed_divide_int_def sgn_if)

declare parallelMergeSortHelper.simps [simp del]

definition parallelMergeSort :: "nat \<Rightarrow> int list \<times> world \<Rightarrow> (int list \<times> world) outcome" where
  "parallelMergeSort ncpu s =
     (case s of (arr, w) \<Rightarrow> parallelMergeSortHelper arr (int ncpu) (initWorkerPool ncpu w))"

subsection \<open>The safe wrappers\<close>





subsection \<open>Reading a run\<close>

text \<open>
  The world an outcome ends in, and the number of successful attempts and of releases in
  a log.
\<close>

fun world_of :: "('a \<times> world) outcome \<Rightarrow> world" where
  "world_of (Returned (r, w)) = w"
| "world_of (Panicked (r, w)) = w"
| "world_of (Crashed (r, w)) = w"

fun acquired :: "event list \<Rightarrow> nat" where
  "acquired [] = 0"
| "acquired (TryAcquire zone ok # evs) = (if ok then 1 else 0) + acquired evs"
| "acquired (Release # evs) = acquired evs"

fun released :: "event list \<Rightarrow> nat" where
  "released [] = 0"
| "released (TryAcquire zone ok # evs) = released evs"
| "released (Release # evs) = 1 + released evs"

subsection \<open>Two hosts\<close>

text \<open>
  Two worlds to run the sorts in: a process in which no sort has run yet, and one whose
  gate exists with all of its \<open>ncpu\<close> slots free. In both, no other goroutine competes
  for the gate.
\<close>

definition host_idle :: world where
  "host_idle = \<lparr>workerPool = None, workerPoolOnce = False, contention = [], trace = []\<rparr>"

definition host_ready :: "nat \<Rightarrow> world" where
  "host_ready ncpu =
     \<lparr>workerPool = Some \<lparr>cap = ncpu, occ = 0\<rparr>, workerPoolOnce = True, contention = [], trace = []\<rparr>"

section \<open>The merge sorter on keyed elements\<close>

text \<open>
  The sorters compare \<open>int\<close>s, and two equal \<open>int\<close>s cannot be told apart, so the
  order in which equal elements leave a sort is not observable on \<open>[]int\<close>. To state
  stability, the merge sorter is repeated here for elements of any type that are compared
  by an \<open>int\<close> key: each definition is the one above with every comparison
  \<open>x \<le> y\<close> or \<open>x > y\<close> of elements replaced by the same comparison of their keys. With
  the identity as key they are the definitions above (lemma \<open>mergeSort_by_id\<close>).
\<close>

function insertionSort_by_shift ::
    "('a \<Rightarrow> int) \<Rightarrow> 'a list \<Rightarrow> int \<Rightarrow> 'a \<Rightarrow> int \<Rightarrow> 'a list + 'a list \<times> int" where
  "insertionSort_by_shift k arr low key j =
     (if j \<ge> low then
        (if \<not> inb arr j then Inl arr
         else if k (arr ! nat j) > k key then
           (if \<not> inb arr (j + 1) then Inl arr
            else insertionSort_by_shift k (arr[nat (j + 1) := arr ! nat j]) low key (j - 1))
         else Inr (arr, j))
      else Inr (arr, j))"
  by pat_completeness auto
termination
  by (relation "measure (\<lambda>(k, arr, low, key, j). nat (j + 1 - low))") auto

declare insertionSort_by_shift.simps [simp del]

function insertionSort_by_from ::
    "('a \<Rightarrow> int) \<Rightarrow> 'a list \<Rightarrow> int \<Rightarrow> int \<Rightarrow> int \<Rightarrow> 'a list + 'a list" where
  "insertionSort_by_from k arr low high i =
     (if i \<le> high then
        (if \<not> inb arr i then Inl arr
         else
           (case insertionSort_by_shift k arr low (arr ! nat i) (i - 1) of
              Inl a \<Rightarrow> Inl a
            | Inr (a, j) \<Rightarrow>
                (if \<not> inb a (j + 1) then Inl a
                 else insertionSort_by_from k (a[nat (j + 1) := arr ! nat i]) low high (i + 1))))
      else Inr arr)"
  by pat_completeness auto
termination
  by (relation "measure (\<lambda>(k, arr, low, high, i). nat (high + 1 - i))") auto

declare insertionSort_by_from.simps [simp del]

definition insertionSort_by :: "('a \<Rightarrow> int) \<Rightarrow> 'a list \<Rightarrow> int \<Rightarrow> int \<Rightarrow> 'a list + 'a list" where
  "insertionSort_by k arr low high = insertionSort_by_from k arr low high (low + 1)"

function merge_by_loop ::
    "('a \<Rightarrow> int) \<Rightarrow> 'a list \<Rightarrow> 'a list \<Rightarrow> nat \<Rightarrow> nat \<Rightarrow> 'a list \<Rightarrow> 'a list \<times> nat \<times> nat" where
  "merge_by_loop k left right i j result =
     (if i < length left \<and> j < length right then
        (if k (left ! i) \<le> k (right ! j) then
           merge_by_loop k left right (i + 1) j (result @ [left ! i])
         else merge_by_loop k left right i (j + 1) (result @ [right ! j]))
      else (result, i, j))"
  by pat_completeness auto
termination
  by (relation "measure (\<lambda>(k, left, right, i, j, result). (length left - i) + (length right - j))")
     auto

declare merge_by_loop.simps [simp del]

definition merge_by :: "('a \<Rightarrow> int) \<Rightarrow> 'a list \<Rightarrow> 'a list \<Rightarrow> 'a list" where
  "merge_by k left right =
     (case merge_by_loop k left right 0 0 [] of
        (result, i, j) \<Rightarrow>
          let result1 = (if i < length left then result @ drop i left else result)
          in (if j < length right then result1 @ drop j right else result1))"

function mergeSort_by :: "('a \<Rightarrow> int) \<Rightarrow> 'a list \<Rightarrow> unit + 'a list" where
  "mergeSort_by k arr =
     (if length arr \<le> 1 then Inr arr
      else if length arr \<le> 16 then
        (case insertionSort_by k arr 0 (int (length arr) - 1) of
           Inl a \<Rightarrow> Inl ()
         | Inr result \<Rightarrow> Inr result)
      else
        (case mergeSort_by k (take (length arr div 2) arr) of
           Inl u \<Rightarrow> Inl u
         | Inr left \<Rightarrow>
             (case mergeSort_by k (drop (length arr div 2) arr) of
                Inl u \<Rightarrow> Inl u
              | Inr right \<Rightarrow> Inr (merge_by k left right))))"
  by pat_completeness auto
termination
  by (relation "measure (\<lambda>(k, arr). length arr)") auto

declare mergeSort_by.simps [simp del]

section \<open>The keyed sorters at the identity key\<close>

text \<open>With the identity as key, the keyed definitions are the sorters of the program.\<close>

lemma insertionSort_by_shift_id: "insertionSort_by_shift (\<lambda>x. x) arr low key j = insertionSort_shift arr low key j"
proof (induction arr low key j rule: insertionSort_shift.induct)
  case (1 arr low key j)
  then show ?case
    by (subst insertionSort_by_shift.simps, subst insertionSort_shift.simps) simp
qed

lemma insertionSort_by_from_id: "insertionSort_by_from (\<lambda>x. x) arr low high i = insertionSort_from arr low high i"
proof (induction arr low high i rule: insertionSort_from.induct)
  case (1 arr low high i)
  then show ?case
    by (subst insertionSort_by_from.simps, subst insertionSort_from.simps)
       (simp add: insertionSort_by_shift_id split: sum.splits)
qed

lemma insertionSort_by_id: "insertionSort_by (\<lambda>x. x) arr low high = insertionSort arr low high"
  by (simp add: insertionSort_by_def insertionSort_def insertionSort_by_from_id)

lemma merge_by_loop_id: "merge_by_loop (\<lambda>x. x) l r i j res = merge_loop l r i j res"
proof (induction l r i j res rule: merge_loop.induct)
  case (1 left right i j result)
  then show ?case
    by (subst merge_by_loop.simps, subst merge_loop.simps) simp
qed

lemma merge_by_id: "merge_by (\<lambda>x. x) l r = merge l r"
  by (simp add: merge_by_def merge_def merge_by_loop_id)

lemma mergeSort_by_id: "mergeSort_by (\<lambda>x. x) arr = mergeSort arr"
proof (induction arr rule: mergeSort.induct)
  case (1 arr)
  then show ?case
    by (subst mergeSort_by.simps, subst mergeSort.simps)
       (simp add: insertionSort_by_id merge_by_id split: sum.splits)
qed

section \<open>Insertion sort, structurally\<close>

text \<open>
  The shifting loop, started below a hole \<open>h\<close> that follows the part \<open>A\<close> of the
  slice, moves the longest run of keys above the key of \<open>x\<close> at the end of \<open>A\<close> one
  place up; it stops on the first key that is not above, so \<open>x\<close> lands after its equals.
\<close>

lemma nth_mid: "(pre @ a # post) ! length pre = a"
  by simp

lemma upd_mid: "(pre @ a # post)[length pre := b] = pre @ b # post"
  by simp

lemma insertionSort_by_shift_struct:
  "\<exists>lo hi h'. insertionSort_by_shift k (pre @ A @ h # B) (int (length pre)) x
                  (int (length pre) + int (length A) - 1)
                = Inr (pre @ lo @ h' # hi @ B, int (length pre) + int (length lo) - 1)
     \<and> A = lo @ hi \<and> (\<forall>y\<in>set hi. k x < k y) \<and> (lo \<noteq> [] \<longrightarrow> k (last lo) \<le> k x)"
proof (induction A arbitrary: h B rule: rev_induct)
  case Nil
  show ?case
    by (subst insertionSort_by_shift.simps) simp
next
  case (snoc a A0)
  let ?arr = "pre @ (A0 @ [a]) @ h # B"
  let ?j = "int (length pre) + int (length (A0 @ [a])) - 1"
  have j: "nat ?j = length (pre @ A0)" by simp
  have inb_j: "inb ?arr ?j" by (simp add: inb_def)
  have inb_j1: "inb ?arr (?j + 1)" by (simp add: inb_def)
  have at_j: "?arr ! nat ?j = a"
    unfolding j using nth_mid[of "pre @ A0" a "h # B"] by simp
  show ?case
  proof (cases "k a > k x")
    case True
    have j1: "nat (?j + 1) = length (pre @ A0 @ [a])" by (simp add: nat_add_distrib)
    have upd: "?arr[nat (?j + 1) := a] = pre @ A0 @ a # (a # B)"
      unfolding j1 using upd_mid[of "pre @ A0 @ [a]" h B a] by simp
    from snoc.IH[of a "a # B"] obtain lo hi h' where
      IH: "insertionSort_by_shift k (pre @ A0 @ a # a # B) (int (length pre)) x
             (int (length pre) + int (length A0) - 1)
           = Inr (pre @ lo @ h' # hi @ a # B, int (length pre) + int (length lo) - 1)"
      and A0: "A0 = lo @ hi" and hi: "\<forall>y\<in>set hi. k x < k y"
      and lo: "lo \<noteq> [] \<longrightarrow> k (last lo) \<le> k x"
      by blast
    have step: "insertionSort_by_shift k ?arr (int (length pre)) x ?j
        = insertionSort_by_shift k (pre @ A0 @ a # a # B) (int (length pre)) x
             (int (length pre) + int (length A0) - 1)"
      apply (subst insertionSort_by_shift.simps)
      using inb_j inb_j1 True upd at_j by simp
    show ?thesis
      apply (rule exI[of _ lo], rule exI[of _ "hi @ [a]"], rule exI[of _ h'])
      using step IH A0 hi lo True by simp
  next
    case False
    have step: "insertionSort_by_shift k ?arr (int (length pre)) x ?j = Inr (?arr, ?j)"
      apply (subst insertionSort_by_shift.simps)
      using inb_j False at_j by simp
    show ?thesis
      apply (rule exI[of _ "A0 @ [a]"], rule exI[of _ "[]"], rule exI[of _ h])
      using step False by simp
  qed
qed


lemma sorted_last_le:
  "sorted (map k lo) \<Longrightarrow> lo \<noteq> [] \<Longrightarrow> k (last lo) \<le> c \<Longrightarrow> y \<in> set lo \<Longrightarrow> k y \<le> (c::int)"
proof (induction lo rule: rev_induct)
  case Nil
  then show ?case by simp
next
  case (snoc a lo)
  then show ?case by (auto simp: sorted_append)
qed

lemma insert_after_sort_key:
  fixes k :: "'a \<Rightarrow> int"
  assumes S: "sort_key k ys = lo @ hi"
    and hi: "\<forall>y\<in>set hi. k x < k y"
    and lo: "lo \<noteq> [] \<longrightarrow> k (last lo) \<le> k x"
  shows "sort_key k (ys @ [x]) = lo @ x # hi"
proof (rule properties_for_sort_key)
  have "mset (lo @ hi) = mset ys" using S[symmetric] by simp
  then show "mset (lo @ x # hi) = mset (ys @ [x])" by simp
next
  have srt: "sorted (map k (lo @ hi))" using S[symmetric] by simp
  then have slo: "sorted (map k lo)" by (simp add: sorted_append)
  have lo_le: "k y \<le> k x" if "y \<in> set lo" for y
  proof -
    from that have "lo \<noteq> []" by auto
    with lo have "k (last lo) \<le> k x" by simp
    from sorted_last_le[OF slo \<open>lo \<noteq> []\<close> this that] show ?thesis .
  qed
  from srt have "sorted (map k lo)" "sorted (map k hi)" by (simp_all add: sorted_append)
  moreover have "\<forall>a\<in>set lo. \<forall>b\<in>set (x # hi). k a \<le> k b"
    using lo_le srt by (auto simp: sorted_append)
  moreover have "sorted (map k (x # hi))"
    using \<open>sorted (map k hi)\<close> hi by (auto simp: less_imp_le)
  ultimately show "sorted (map k (lo @ x # hi))"
    by (simp add: sorted_append)
next
  fix z assume "z \<in> set (lo @ x # hi)"
  have st: "filter (\<lambda>y. k y = k z) (lo @ hi) = filter (\<lambda>y. k y = k z) ys"
    using sort_key_stable[of k "k z" ys] by (simp only: S)
  have eq: "(\<lambda>y. k z = k y) = (\<lambda>y. k y = k z)" by (rule ext) (rule eq_commute)
  have hi_none: "filter (\<lambda>y. k y = k z) hi = []" if "k z = k x"
    using hi that by (auto simp: filter_empty_conv)
  show "filter (\<lambda>y. k z = k y) (lo @ x # hi) = filter (\<lambda>y. k z = k y) (ys @ [x])"
  proof (cases "k z = k x")
    case True
    with st hi_none[OF True] show ?thesis unfolding eq by simp
  next
    case False
    with st show ?thesis unfolding eq by auto
  qed
qed

lemma insertionSort_by_from_struct:
  "insertionSort_by_from k (pre @ sort_key k sorted_part @ todo @ post) (int (length pre))
       (int (length pre) + int (length sorted_part) + int (length todo) - 1)
       (int (length pre) + int (length sorted_part))
     = Inr (pre @ sort_key k (sorted_part @ todo) @ post)"
proof (induction todo arbitrary: sorted_part)
  case Nil
  show ?case
    by (subst insertionSort_by_from.simps) simp
next
  case (Cons x t)
  let ?S = "sort_key k sorted_part"
  let ?arr = "pre @ ?S @ (x # t) @ post"
  let ?i = "int (length pre) + int (length sorted_part)"
  let ?high = "int (length pre) + int (length sorted_part) + int (length (x # t)) - 1"
  have i: "nat ?i = length (pre @ ?S)" by (simp add: nat_add_distrib)
  have inb_i: "inb ?arr ?i" by (simp add: inb_def)
  have at_i: "?arr ! nat ?i = x"
    unfolding i using nth_append_length[of "pre @ ?S" x "t @ post"] by simp
  from insertionSort_by_shift_struct[of k pre ?S x "t @ post" x]
  obtain lo hi h' where
    sh: "insertionSort_by_shift k (pre @ ?S @ x # t @ post) (int (length pre)) x
           (int (length pre) + int (length ?S) - 1)
         = Inr (pre @ lo @ h' # hi @ t @ post, int (length pre) + int (length lo) - 1)"
    and S: "?S = lo @ hi" and hi: "\<forall>y\<in>set hi. k x < k y"
    and lo: "lo \<noteq> [] \<longrightarrow> k (last lo) \<le> k x"
    by blast
  have ins: "sort_key k (sorted_part @ [x]) = lo @ x # hi"
    using insert_after_sort_key[OF S hi lo] .
  let ?a = "pre @ lo @ h' # hi @ t @ post"
  have j1: "nat (int (length pre) + int (length lo) - 1 + 1) = length (pre @ lo)"
    by (simp add: nat_add_distrib)
  have inb_j1: "inb ?a (int (length pre) + int (length lo) - 1 + 1)" by (simp add: inb_def)
  have upd: "?a[nat (int (length pre) + int (length lo) - 1 + 1) := x] = pre @ (lo @ x # hi) @ t @ post"
    unfolding j1 using list_update_length[of "pre @ lo" h' "hi @ t @ post" x] by simp
  have len: "length sorted_part = length lo + length hi"
    using arg_cong[OF S, of length] by simp
  have step: "insertionSort_by_from k ?arr (int (length pre)) ?high ?i
     = insertionSort_by_from k (pre @ sort_key k (sorted_part @ [x]) @ t @ post) (int (length pre)) ?high (?i + 1)"
    apply (subst insertionSort_by_from.simps)
    using inb_i at_i sh inb_j1 upd ins by simp
  have "insertionSort_by_from k (pre @ sort_key k (sorted_part @ [x]) @ t @ post) (int (length pre)) ?high (?i + 1)
      = Inr (pre @ sort_key k ((sorted_part @ [x]) @ t) @ post)"
    using Cons.IH[of "sorted_part @ [x]"] by (simp add: algebra_simps)
  with step show ?case by simp
qed

lemma insertionSort_by_struct:
  assumes "low = int (length pre)" "high = low + int (length mid) - 1"
  shows "insertionSort_by k (pre @ mid @ post) low high = Inr (pre @ sort_key k mid @ post)"
proof (cases mid)
  case Nil
  with assms show ?thesis
    by (simp add: insertionSort_by_def insertionSort_by_from.simps)
next
  case (Cons m ms)
  have "insertionSort_by_from k (pre @ sort_key k [m] @ ms @ post) (int (length pre))
       (int (length pre) + int (length [m]) + int (length ms) - 1)
       (int (length pre) + int (length [m]))
     = Inr (pre @ sort_key k ([m] @ ms) @ post)"
    by (rule insertionSort_by_from_struct)
  with assms Cons show ?thesis
    by (simp add: insertionSort_by_def)
qed

section \<open>Merging\<close>

text \<open>
  What \<open>merge\<close> returns is the result of the comparison loop followed by what is left
  of both sides; one of them is empty. The loop keeps the elements, the order among the
  elements of one key, and sortedness.
\<close>

lemma merge_by_alt:
  "merge_by k l r = (case merge_by_loop k l r 0 0 [] of (res, i, j) \<Rightarrow> res @ drop i l @ drop j r)"
  by (simp add: merge_by_def Let_def split: prod.splits)

lemma merge_by_loop_mset:
  "(case merge_by_loop k l r i j res of (res', i', j') \<Rightarrow> mset (res' @ drop i' l @ drop j' r))
     = mset res + mset (drop i l) + mset (drop j r)"
proof (induction k l r i j res rule: merge_by_loop.induct)
  case (1 k left right i j result)
  show ?case
  proof (cases "i < length left \<and> j < length right")
    case False
    show ?thesis by (subst merge_by_loop.simps) (simp add: False)
  next
    case True
    then have dl: "drop i left = left ! i # drop (Suc i) left"
      and dr: "drop j right = right ! j # drop (Suc j) right"
      by (simp_all add: Cons_nth_drop_Suc)
    show ?thesis
    proof (cases "k (left ! i) \<le> k (right ! j)")
      case le: True
      with True "1.IH"(1) show ?thesis
        by (subst merge_by_loop.simps) (simp add: dl)
    next
      case gt: False
      with True "1.IH"(2) show ?thesis
        by (subst merge_by_loop.simps) (simp add: dr)
    qed
  qed
qed

lemma merge_by_loop_filter:
  fixes k :: "'a \<Rightarrow> int"
  shows "sorted (map k (drop i l)) \<Longrightarrow>
   (case merge_by_loop k l r i j res of (res', i', j') \<Rightarrow>
      filter (\<lambda>y. k y = c) (res' @ drop i' l @ drop j' r))
     = filter (\<lambda>y. k y = c) (res @ drop i l @ drop j r)"
proof (induction k l r i j res rule: merge_by_loop.induct)
  case (1 k left right i j result)
  show ?case
  proof (cases "i < length left \<and> j < length right")
    case False
    show ?thesis by (subst merge_by_loop.simps) (simp add: False)
  next
    case True
    then have dl: "drop i left = left ! i # drop (Suc i) left"
      and dr: "drop j right = right ! j # drop (Suc j) right"
      by (simp_all add: Cons_nth_drop_Suc)
    from "1.prems" have sl: "sorted (map k (drop (Suc i) left))"
      and ge: "\<forall>y\<in>set (drop (Suc i) left). k (left ! i) \<le> k y"
      by (simp_all add: dl)
    show ?thesis
    proof (cases "k (left ! i) \<le> k (right ! j)")
      case le: True
      with True "1.IH"(1) sl show ?thesis
        by (subst merge_by_loop.simps) (simp add: dl)
    next
      case gt: False
      have none: "filter (\<lambda>y. k y = c) (drop i left) = []" if "k (right ! j) = c"
        using that gt ge by (auto simp: dl filter_empty_conv)
      from gt True "1.IH"(2) "1.prems" have
        "(case merge_by_loop k left right i j result of (res', i', j') \<Rightarrow>
            filter (\<lambda>y. k y = c) (res' @ drop i' left @ drop j' right))
         = filter (\<lambda>y. k y = c) ((result @ [right ! j]) @ drop i left @ drop (Suc j) right)"
        by (subst merge_by_loop.simps) simp
      also have "\<dots> = filter (\<lambda>y. k y = c) (result @ drop i left @ drop j right)"
        using none by (cases "k (right ! j) = c") (simp_all add: dr)
      finally show ?thesis .
    qed
  qed
qed

lemma merge_by_loop_sorted:
  fixes k :: "'a \<Rightarrow> int"
  shows "sorted (map k (drop i l)) \<Longrightarrow> sorted (map k (drop j r)) \<Longrightarrow> sorted (map k res) \<Longrightarrow>
   \<forall>a\<in>set res. \<forall>b\<in>set (drop i l) \<union> set (drop j r). k a \<le> k b \<Longrightarrow>
   (case merge_by_loop k l r i j res of (res', i', j') \<Rightarrow>
      sorted (map k (res' @ drop i' l @ drop j' r)))"
proof (induction k l r i j res rule: merge_by_loop.induct)
  case (1 k left right i j result)
  show ?case
  proof (cases "i < length left \<and> j < length right")
    case False
    then have "drop i left = [] \<or> drop j right = []" by auto
    with "1.prems" have "sorted (map k (result @ drop i left @ drop j right))"
      by (auto simp: sorted_append)
    then show ?thesis by (subst merge_by_loop.simps) (simp add: False)
  next
    case True
    then have dl: "drop i left = left ! i # drop (Suc i) left"
      and dr: "drop j right = right ! j # drop (Suc j) right"
      by (simp_all add: Cons_nth_drop_Suc)
    from "1.prems"(1) have sl: "sorted (map k (drop (Suc i) left))"
      and gl: "\<forall>y\<in>set (drop (Suc i) left). k (left ! i) \<le> k y"
      by (simp_all add: dl)
    from "1.prems"(2) have sr: "sorted (map k (drop (Suc j) right))"
      and gr: "\<forall>y\<in>set (drop (Suc j) right). k (right ! j) \<le> k y"
      by (simp_all add: dr)
    from "1.prems"(4) have rl: "\<forall>a\<in>set result. k a \<le> k (left ! i)"
      and rr: "\<forall>a\<in>set result. k a \<le> k (right ! j)"
      and rdl: "\<forall>a\<in>set result. \<forall>b\<in>set (drop (Suc i) left). k a \<le> k b"
      and rdr: "\<forall>a\<in>set result. \<forall>b\<in>set (drop (Suc j) right). k a \<le> k b"
      by (simp_all add: dl dr)
    show ?thesis
    proof (cases "k (left ! i) \<le> k (right ! j)")
      case le: True
      have a: "sorted (map k (result @ [left ! i]))"
        using "1.prems"(3) rl by (simp add: sorted_append)
      have b: "\<forall>a\<in>set (result @ [left ! i]). \<forall>b\<in>set (drop (i + 1) left) \<union> set (drop j right). k a \<le> k b"
        using gl gr le rdl "1.prems"(4) by (auto simp: dr)
      from "1.IH"(1)[OF True le _ "1.prems"(2) a b] sl True le show ?thesis
        by (subst merge_by_loop.simps) simp
    next
      case gt: False
      have a: "sorted (map k (result @ [right ! j]))"
        using "1.prems"(3) rr by (simp add: sorted_append)
      have b: "\<forall>a\<in>set (result @ [right ! j]). \<forall>b\<in>set (drop i left) \<union> set (drop (j + 1) right). k a \<le> k b"
        using gl gr gt rdr "1.prems"(4) by (auto simp: dl)
      from "1.IH"(2)[OF True gt "1.prems"(1) _ a b] sr True gt show ?thesis
        by (subst merge_by_loop.simps) simp
    qed
  qed
qed

lemma merge_by_mset: "mset (merge_by k l r) = mset l + mset r"
  using merge_by_loop_mset[where k=k and l=l and r=r and i=0 and j=0 and res="[]"]
  by (simp add: merge_by_alt split: prod.splits)

lemma merge_by_filter:
  fixes k :: "'a \<Rightarrow> int"
  shows "sorted (map k l) \<Longrightarrow>
     filter (\<lambda>y. k y = c) (merge_by k l r) = filter (\<lambda>y. k y = c) l @ filter (\<lambda>y. k y = c) r"
  using merge_by_loop_filter[where k=k and l=l and r=r and i=0 and j=0 and res="[]" and c=c]
  by (simp add: merge_by_alt split: prod.splits)

lemma merge_by_sorted:
  fixes k :: "'a \<Rightarrow> int"
  shows "sorted (map k l) \<Longrightarrow> sorted (map k r) \<Longrightarrow> sorted (map k (merge_by k l r))"
  using merge_by_loop_sorted[where k=k and l=l and r=r and i=0 and j=0 and res="[]"]
  by (simp add: merge_by_alt split: prod.splits)

lemma merge_by_loop_Cons_left:
  "merge_by_loop k (a # l) r (Suc i) j res
     = (case merge_by_loop k l r i j res of (res', i', j') \<Rightarrow> (res', Suc i', j'))"
proof (induction k l r i j res rule: merge_by_loop.induct)
  case (1 k left right i j result)
  show ?case
  proof (cases "i < length left \<and> j < length right")
    case False
    show ?thesis
      by (subst merge_by_loop.simps, subst (2) merge_by_loop.simps) (simp add: False)
  next
    case True
    show ?thesis
    proof (cases "k (left ! i) \<le> k (right ! j)")
      case le: True
      with True "1.IH"(1) show ?thesis
        by (subst merge_by_loop.simps, subst (2) merge_by_loop.simps) simp
    next
      case gt: False
      with True "1.IH"(2) show ?thesis
        by (subst merge_by_loop.simps, subst (2) merge_by_loop.simps) simp
    qed
  qed
qed

lemma merge_by_loop_Cons_right:
  "merge_by_loop k l (b # r) i (Suc j) res
     = (case merge_by_loop k l r i j res of (res', i', j') \<Rightarrow> (res', i', Suc j'))"
proof (induction k l r i j res rule: merge_by_loop.induct)
  case (1 k left right i j result)
  show ?case
  proof (cases "i < length left \<and> j < length right")
    case False
    show ?thesis
      by (subst merge_by_loop.simps, subst (2) merge_by_loop.simps) (simp add: False)
  next
    case True
    show ?thesis
    proof (cases "k (left ! i) \<le> k (right ! j)")
      case le: True
      with True "1.IH"(1) show ?thesis
        by (subst merge_by_loop.simps, subst (2) merge_by_loop.simps) simp
    next
      case gt: False
      with True "1.IH"(2) show ?thesis
        by (subst merge_by_loop.simps, subst (2) merge_by_loop.simps) simp
    qed
  qed
qed

lemma merge_by_loop_prefix:
  "merge_by_loop k l r i j (p @ res)
     = (case merge_by_loop k l r i j res of (res', i', j') \<Rightarrow> (p @ res', i', j'))"
proof (induction k l r i j res rule: merge_by_loop.induct)
  case (1 k left right i j result)
  show ?case
  proof (cases "i < length left \<and> j < length right")
    case False
    show ?thesis
      by (subst merge_by_loop.simps, subst (2) merge_by_loop.simps) (simp add: False)
  next
    case True
    show ?thesis
    proof (cases "k (left ! i) \<le> k (right ! j)")
      case le: True
      with True "1.IH"(1) show ?thesis
        by (subst merge_by_loop.simps, subst (2) merge_by_loop.simps) simp
    next
      case gt: False
      with True "1.IH"(2) show ?thesis
        by (subst merge_by_loop.simps, subst (2) merge_by_loop.simps) simp
    qed
  qed
qed

lemma merge_by_Cons_Cons:
  "merge_by k (a # l) (b # r)
     = (if k a \<le> k b then a # merge_by k l (b # r) else b # merge_by k (a # l) r)"
proof (cases "k a \<le> k b")
  case True
  have "merge_by_loop k (a # l) (b # r) 0 0 [] = merge_by_loop k (a # l) (b # r) (Suc 0) 0 ([a] @ [])"
    by (subst merge_by_loop.simps) (simp add: True)
  also have "\<dots> = (case merge_by_loop k l (b # r) 0 0 [] of (res', i', j') \<Rightarrow> (a # res', Suc i', j'))"
    by (simp only: merge_by_loop_Cons_left merge_by_loop_prefix) (simp split: prod.splits)
  finally show ?thesis
    using True by (simp add: merge_by_alt split: prod.splits)
next
  case False
  have "merge_by_loop k (a # l) (b # r) 0 0 [] = merge_by_loop k (a # l) (b # r) 0 (Suc 0) ([b] @ [])"
    by (subst merge_by_loop.simps) (simp add: False)
  also have "\<dots> = (case merge_by_loop k (a # l) r 0 0 [] of (res', i', j') \<Rightarrow> (b # res', i', Suc j'))"
    by (simp only: merge_by_loop_Cons_right merge_by_loop_prefix) (simp split: prod.splits)
  finally show ?thesis
    using False by (simp add: merge_by_alt split: prod.splits)
qed

section \<open>The merge sorter sorts, stably\<close>

lemma mergeSort_by_sort_key:
  fixes k :: "'a \<Rightarrow> int"
  shows "mergeSort_by k arr = Inr (sort_key k arr)"
proof (induction k arr rule: mergeSort_by.induct)
  case (1 k arr)
  show ?case
  proof (cases "length arr \<le> 1")
    case True
    then have "sorted (map k arr)" by (simp add: sorted01)
    then have "sort_key k arr = arr" by (rule sort_key_id_if_sorted)
    with True show ?thesis by (subst mergeSort_by.simps) simp
  next
    case False
    show ?thesis
    proof (cases "length arr \<le> 16")
      case True
      have "insertionSort_by k ([] @ arr @ []) 0 (int (length arr) - 1) = Inr ([] @ sort_key k arr @ [])"
        by (rule insertionSort_by_struct) simp_all
      with False True show ?thesis by (subst mergeSort_by.simps) simp
    next
      case big: False
      let ?mid = "length arr div 2"
      let ?l = "sort_key k (take ?mid arr)" and ?r = "sort_key k (drop ?mid arr)"
      have L: "mergeSort_by k (take ?mid arr) = Inr ?l"
        using "1.IH"(1)[OF False big] .
      have R: "mergeSort_by k (drop ?mid arr) = Inr ?r"
        using "1.IH"(2)[OF False big L] .
      have sl: "sorted (map k ?l)" and sr: "sorted (map k ?r)" by simp_all
      have "sort_key k arr = merge_by k ?l ?r"
      proof (rule properties_for_sort_key)
        have "mset (merge_by k ?l ?r) = mset (take ?mid arr) + mset (drop ?mid arr)"
          by (simp add: merge_by_mset)
        also have "\<dots> = mset (take ?mid arr @ drop ?mid arr)" by (simp only: mset_append)
        finally show "mset (merge_by k ?l ?r) = mset arr" by simp
      next
        show "sorted (map k (merge_by k ?l ?r))" using merge_by_sorted[OF sl sr] .
      next
        fix z
        have eq: "(\<lambda>y. k z = k y) = (\<lambda>y. k y = k z)" by (rule ext) (rule eq_commute)
        have "filter (\<lambda>y. k y = k z) (merge_by k ?l ?r)
            = filter (\<lambda>y. k y = k z) (take ?mid arr) @ filter (\<lambda>y. k y = k z) (drop ?mid arr)"
          by (simp add: merge_by_filter[OF sl] sort_key_stable)
        also have "\<dots> = filter (\<lambda>y. k y = k z) (take ?mid arr @ drop ?mid arr)"
          by (simp only: filter_append)
        finally show "filter (\<lambda>y. k z = k y) (merge_by k ?l ?r) = filter (\<lambda>y. k z = k y) arr"
          unfolding eq by simp
      qed
      with False big L R show ?thesis by (subst mergeSort_by.simps) simp
    qed
  qed
qed

lemma mergeSort_sort: "mergeSort arr = Inr (sort arr)"
  using mergeSort_by_sort_key[of "\<lambda>x. x" arr] by (simp add: mergeSort_by_id)

lemma insertionSort_struct:
  assumes "low = int (length pre)" "high = low + int (length mid) - 1"
  shows "insertionSort (pre @ mid @ post) low high = Inr (pre @ sort mid @ post)"
  using insertionSort_by_struct[OF assms, of "\<lambda>x. x" post] by (simp add: insertionSort_by_id)

section \<open>The three-way partition\<close>

text \<open>
  The scan keeps three zones: below the pivot in \<open>[low, lt)\<close>, equal to it in
  \<open>[lt, i)\<close>, above it in \<open>[gt, high]\<close>. It only swaps positions of the range.
\<close>

lemma swap_length [simp]: "length (swap arr i j) = length arr"
  by (simp add: swap_def)

lemma inb_nat: "inb arr i \<Longrightarrow> nat i < length arr"
  unfolding inb_def by linarith

lemma swap_mset: "inb arr i \<Longrightarrow> inb arr j \<Longrightarrow> mset (swap arr i j) = mset arr"
  using mset_swap[of "nat j" arr "nat i"] by (simp add: swap_def inb_nat)

lemma swap_nth:
  "inb arr i \<Longrightarrow> inb arr j \<Longrightarrow> 0 \<le> k \<Longrightarrow>
     swap arr i j ! nat k = (if k = j then arr ! nat i else if k = i then arr ! nat j else arr ! nat k)"
  by (auto simp: swap_def inb_def nth_list_update)

lemma partition3Way_loop_spec:
  assumes "0 \<le> low" "high < int (length arr)" "low \<le> lt" "lt < i" "i \<le> gt" "gt \<le> high + 1"
    and "\<forall>k. low \<le> k \<and> k < lt \<longrightarrow> arr ! nat k < pivot"
    and "\<forall>k. lt \<le> k \<and> k < i \<longrightarrow> arr ! nat k = pivot"
    and "\<forall>k. gt \<le> k \<and> k \<le> high \<longrightarrow> arr ! nat k > pivot"
  shows "\<exists>a lt' gt'. partition3Way_loop arr pivot lt i gt = Inr (a, lt', gt') \<and>
     length a = length arr \<and> mset a = mset arr \<and> low \<le> lt' \<and> lt' \<le> gt' \<and> gt' \<le> high \<and>
     (\<forall>k. low \<le> k \<and> k < lt' \<longrightarrow> a ! nat k < pivot) \<and>
     (\<forall>k. lt' \<le> k \<and> k \<le> gt' \<longrightarrow> a ! nat k = pivot) \<and>
     (\<forall>k. gt' < k \<and> k \<le> high \<longrightarrow> a ! nat k > pivot) \<and>
     (\<forall>k. 0 \<le> k \<and> (k < low \<or> high < k) \<longrightarrow> a ! nat k = arr ! nat k)"
  using assms
proof (induction arr pivot lt i gt rule: partition3Way_loop.induct)
  case (1 arr pivot lt i gt)
  note bounds = "1.prems"(1-6)
  note zl = "1.prems"(7) and ze = "1.prems"(8) and zg = "1.prems"(9)
  show ?case
  proof (cases "i < gt")
    case False
    with bounds have "i = gt" by simp
    have "partition3Way_loop arr pivot lt i gt = Inr (arr, lt, gt - 1)"
      by (subst partition3Way_loop.simps) (simp add: False)
    moreover have "\<forall>k. lt \<le> k \<and> k \<le> gt - 1 \<longrightarrow> arr ! nat k = pivot"
      using ze \<open>i = gt\<close> by auto
    moreover have "\<forall>k. gt - 1 < k \<and> k \<le> high \<longrightarrow> arr ! nat k > pivot"
      using zg by auto
    ultimately show ?thesis using bounds zl \<open>i = gt\<close> by auto
  next
    case True
    with bounds have inb_i: "inb arr i" and inb_lt: "inb arr lt" and inb_g: "inb arr (gt - 1)"
      by (auto simp: inb_def)
    consider (less) "arr ! nat i < pivot" | (greater) "arr ! nat i > pivot" | (equal) "arr ! nat i = pivot"
      by linarith
    then show ?thesis
    proof cases
      case less
      let ?a = "swap arr lt i"
      have unf: "partition3Way_loop arr pivot lt i gt = partition3Way_loop ?a pivot (lt + 1) (i + 1) gt"
        by (subst partition3Way_loop.simps) (simp add: True inb_i inb_lt less)
      have nth: "\<And>k. 0 \<le> k \<Longrightarrow> ?a ! nat k = (if k = i then arr ! nat lt else if k = lt then arr ! nat i else arr ! nat k)"
        using swap_nth[OF inb_lt inb_i] by simp
      have p1: "\<forall>k. low \<le> k \<and> k < lt + 1 \<longrightarrow> ?a ! nat k < pivot"
        using zl less bounds by (auto simp: nth)
      have p2: "\<forall>k. lt + 1 \<le> k \<and> k < i + 1 \<longrightarrow> ?a ! nat k = pivot"
        using ze bounds by (auto simp: nth)
      have p3: "\<forall>k. gt \<le> k \<and> k \<le> high \<longrightarrow> ?a ! nat k > pivot"
        using zg bounds True by (auto simp: nth)
      have "high < int (length ?a)" "low \<le> lt + 1" "lt + 1 < i + 1" "i + 1 \<le> gt"
        using bounds True by simp_all
      from "1.IH"(1)[OF True _ less _ bounds(1) this bounds(6) p1 p2 p3] inb_i inb_lt
      obtain a lt' gt' where
        r: "partition3Way_loop ?a pivot (lt + 1) (i + 1) gt = Inr (a, lt', gt')"
           "length a = length ?a" "mset a = mset ?a" "low \<le> lt'" "lt' \<le> gt'" "gt' \<le> high"
           "\<forall>k. low \<le> k \<and> k < lt' \<longrightarrow> a ! nat k < pivot"
           "\<forall>k. lt' \<le> k \<and> k \<le> gt' \<longrightarrow> a ! nat k = pivot"
           "\<forall>k. gt' < k \<and> k \<le> high \<longrightarrow> a ! nat k > pivot"
           "\<forall>k. 0 \<le> k \<and> (k < low \<or> high < k) \<longrightarrow> a ! nat k = ?a ! nat k"
        by auto
      have fr: "\<forall>k. 0 \<le> k \<and> (k < low \<or> high < k) \<longrightarrow> a ! nat k = arr ! nat k"
        using r(10) bounds True by (auto simp: nth)
      from r fr show ?thesis
        unfolding unf by (simp add: swap_mset[OF inb_lt inb_i])
    next
      case greater
      let ?a = "swap arr i (gt - 1)"
      have ng: "\<not> arr ! nat i < pivot" using greater by simp
      have unf: "partition3Way_loop arr pivot lt i gt = partition3Way_loop ?a pivot lt i (gt - 1)"
        by (subst partition3Way_loop.simps) (simp add: True inb_i inb_g greater ng)
      have nth: "\<And>k. 0 \<le> k \<Longrightarrow> ?a ! nat k = (if k = gt - 1 then arr ! nat i else if k = i then arr ! nat (gt - 1) else arr ! nat k)"
        using swap_nth[OF inb_i inb_g] by simp
      have p1: "\<forall>k. low \<le> k \<and> k < lt \<longrightarrow> ?a ! nat k < pivot"
        using zl bounds True by (auto simp: nth)
      have p2: "\<forall>k. lt \<le> k \<and> k < i \<longrightarrow> ?a ! nat k = pivot"
        using ze bounds True by (auto simp: nth)
      have p3: "\<forall>k. gt - 1 \<le> k \<and> k \<le> high \<longrightarrow> ?a ! nat k > pivot"
        using zg bounds True greater by (auto simp: nth)
      have "\<not> arr ! nat i < pivot" using greater by simp
      have "high < int (length ?a)" "i \<le> gt - 1" "gt - 1 \<le> high + 1"
        using bounds True by simp_all
      from "1.IH"(2)[OF True _ \<open>\<not> arr ! nat i < pivot\<close> greater _ bounds(1) this(1) bounds(3,4) this(2,3) p1 p2 p3] inb_i inb_g
      obtain a lt' gt' where
        r: "partition3Way_loop ?a pivot lt i (gt - 1) = Inr (a, lt', gt')"
           "length a = length ?a" "mset a = mset ?a" "low \<le> lt'" "lt' \<le> gt'" "gt' \<le> high"
           "\<forall>k. low \<le> k \<and> k < lt' \<longrightarrow> a ! nat k < pivot"
           "\<forall>k. lt' \<le> k \<and> k \<le> gt' \<longrightarrow> a ! nat k = pivot"
           "\<forall>k. gt' < k \<and> k \<le> high \<longrightarrow> a ! nat k > pivot"
           "\<forall>k. 0 \<le> k \<and> (k < low \<or> high < k) \<longrightarrow> a ! nat k = ?a ! nat k"
        by auto
      have fr: "\<forall>k. 0 \<le> k \<and> (k < low \<or> high < k) \<longrightarrow> a ! nat k = arr ! nat k"
        using r(10) bounds True by (auto simp: nth)
      from r fr show ?thesis
        unfolding unf by (simp add: swap_mset[OF inb_i inb_g])
    next
      case equal
      have unf: "partition3Way_loop arr pivot lt i gt = partition3Way_loop arr pivot lt (i + 1) gt"
        by (subst partition3Way_loop.simps) (simp add: True inb_i equal)
      have p2: "\<forall>k. lt \<le> k \<and> k < i + 1 \<longrightarrow> arr ! nat k = pivot"
      proof (intro allI impI)
        fix k assume "lt \<le> k \<and> k < i + 1"
        then have "k < i \<or> k = i" by auto
        with ze equal \<open>lt \<le> k \<and> k < i + 1\<close> show "arr ! nat k = pivot" by auto
      qed
      have n1: "\<not> arr ! nat i < pivot" and n2: "\<not> arr ! nat i > pivot" using equal by simp_all
      have "lt < i + 1" "i + 1 \<le> gt" using bounds True by simp_all
      from "1.IH"(3)[OF True _ n1 n2 bounds(1,2,3) this bounds(6) zl p2 zg] inb_i
      show ?thesis unfolding unf by simp
    qed
  qed
qed

lemma medianOfThree_spec:
  assumes "inb arr a" "inb arr b" "inb arr c"
  shows "\<exists>r. medianOfThree arr a b c = Inr r \<and> length r = length arr \<and> mset r = mset arr \<and>
           (\<forall>k. 0 \<le> k \<and> k \<noteq> a \<and> k \<noteq> b \<and> k \<noteq> c \<longrightarrow> r ! nat k = arr ! nat k)"
proof -
  define arr1 where "arr1 = (if arr ! nat a > arr ! nat b then swap arr a b else arr)"
  define arr2 where "arr2 = (if arr1 ! nat b > arr1 ! nat c then swap arr1 b c else arr1)"
  define arr3 where "arr3 = (if arr2 ! nat a > arr2 ! nat b then swap arr2 a b else arr2)"
  have l1: "length arr1 = length arr" by (simp add: arr1_def)
  have l2: "length arr2 = length arr" by (simp add: arr2_def l1)
  have l3: "length arr3 = length arr" by (simp add: arr3_def l2)
  have i1: "inb arr1 a" "inb arr1 b" "inb arr1 c" using assms by (simp_all add: inb_def l1)
  have i2: "inb arr2 a" "inb arr2 b" "inb arr2 c" using assms by (simp_all add: inb_def l2)
  have i3: "inb arr3 a" "inb arr3 b" "inb arr3 c" using assms by (simp_all add: inb_def l3)
  have m1: "mset arr1 = mset arr" by (simp add: arr1_def swap_mset assms)
  have m2: "mset arr2 = mset arr" by (simp add: arr2_def swap_mset i1 m1)
  have m3: "mset arr3 = mset arr" by (simp add: arr3_def swap_mset i2 m2)
  have f1: "arr1 ! nat k = arr ! nat k" if "0 \<le> k" "k \<noteq> a" "k \<noteq> b" for k
    using that by (simp add: arr1_def swap_nth assms)
  have f2: "arr2 ! nat k = arr1 ! nat k" if "0 \<le> k" "k \<noteq> b" "k \<noteq> c" for k
    using that by (simp add: arr2_def swap_nth i1)
  have f3: "arr3 ! nat k = arr2 ! nat k" if "0 \<le> k" "k \<noteq> a" "k \<noteq> b" for k
    using that by (simp add: arr3_def swap_nth i2)
  have f4: "swap arr3 a b ! nat k = arr3 ! nat k" if "0 \<le> k" "k \<noteq> a" "k \<noteq> b" for k
    using that by (simp add: swap_nth i3)
  have "medianOfThree arr a b c = Inr (swap arr3 a b)"
    using assms i1 by (simp add: medianOfThree_def Let_def arr1_def[symmetric] arr2_def[symmetric] arr3_def[symmetric])
  moreover have "mset (swap arr3 a b) = mset arr" by (simp add: swap_mset i3 m3)
  moreover have "\<forall>k. 0 \<le> k \<and> k \<noteq> a \<and> k \<noteq> b \<and> k \<noteq> c \<longrightarrow> swap arr3 a b ! nat k = arr ! nat k"
    by (simp add: f1 f2 f3 f4)
  ultimately show ?thesis by (simp add: l3)
qed

lemma sdiv2_mid:
  "0 \<le> low \<Longrightarrow> low \<le> high \<Longrightarrow> low \<le> (low + high) sdiv 2 \<and> (low + high) sdiv 2 \<le> (high :: int)"
  by (auto simp: signed_divide_int_def sgn_if)

lemma partition3Way_spec:
  assumes "0 \<le> low" "low \<le> high" "high < int (length arr)"
  shows "\<exists>a lt gt pivot. partition3Way arr low high = Inr (a, lt, gt) \<and>
     length a = length arr \<and> mset a = mset arr \<and> low \<le> lt \<and> lt \<le> gt \<and> gt \<le> high \<and>
     (\<forall>k. low \<le> k \<and> k < lt \<longrightarrow> a ! nat k < pivot) \<and>
     (\<forall>k. lt \<le> k \<and> k \<le> gt \<longrightarrow> a ! nat k = pivot) \<and>
     (\<forall>k. gt < k \<and> k \<le> high \<longrightarrow> a ! nat k > pivot) \<and>
     (\<forall>k. 0 \<le> k \<and> (k < low \<or> high < k) \<longrightarrow> a ! nat k = arr ! nat k)"
proof -
  let ?m = "(low + high) sdiv 2"
  have m: "low \<le> ?m" "?m \<le> high" using sdiv2_mid[OF assms(1,2)] by simp_all
  have inb: "inb arr low" "inb arr ?m" "inb arr high" using assms m by (simp_all add: inb_def)
  from medianOfThree_spec[OF inb] obtain r where
    r: "medianOfThree arr low ?m high = Inr r" "length r = length arr" "mset r = mset arr"
       "\<forall>k. 0 \<le> k \<and> k \<noteq> low \<and> k \<noteq> ?m \<and> k \<noteq> high \<longrightarrow> r ! nat k = arr ! nat k"
    by blast
  have inb_r: "inb r low" using inb(1) by (simp add: inb_def r(2))
  have unf: "partition3Way arr low high = partition3Way_loop r (r ! nat low) low (low + 1) (high + 1)"
    by (simp add: partition3Way_def r(1) inb_r)
  have z1: "\<forall>k. low \<le> k \<and> k < low \<longrightarrow> r ! nat k < r ! nat low" by simp
  have z2: "\<forall>k. low \<le> k \<and> k < low + 1 \<longrightarrow> r ! nat k = r ! nat low"
  proof (intro allI impI)
    fix k assume "low \<le> k \<and> k < low + 1"
    then have "k = low" by simp
    then show "r ! nat k = r ! nat low" by simp
  qed
  have z3: "\<forall>k. high + 1 \<le> k \<and> k \<le> high \<longrightarrow> r ! nat k > r ! nat low" by simp
  have b: "high < int (length r)" "low \<le> low" "low < low + 1" "low + 1 \<le> high + 1" "high + 1 \<le> high + 1"
    using assms by (simp_all add: r(2))
  from partition3Way_loop_spec[OF assms(1) b z1 z2 z3]
  obtain a lt' gt' where
    res: "partition3Way_loop r (r ! nat low) low (low + 1) (high + 1) = Inr (a, lt', gt')"
      "length a = length r" "mset a = mset r" "low \<le> lt'" "lt' \<le> gt'" "gt' \<le> high"
      "\<forall>k. low \<le> k \<and> k < lt' \<longrightarrow> a ! nat k < r ! nat low"
      "\<forall>k. lt' \<le> k \<and> k \<le> gt' \<longrightarrow> a ! nat k = r ! nat low"
      "\<forall>k. gt' < k \<and> k \<le> high \<longrightarrow> a ! nat k > r ! nat low"
      "\<forall>k. 0 \<le> k \<and> (k < low \<or> high < k) \<longrightarrow> a ! nat k = r ! nat k"
    by blast
  have fr: "\<forall>k. 0 \<le> k \<and> (k < low \<or> high < k) \<longrightarrow> a ! nat k = arr ! nat k"
    using res(10) r(4) m by auto
  show ?thesis
    apply (rule exI[of _ a], rule exI[of _ lt'], rule exI[of _ gt'], rule exI[of _ "r ! nat low"])
    using unf res r(2,3) fr by simp
qed

text \<open>
  The same in terms of lists: a slice that agrees with \<open>pre @ mid @ post\<close> outside the
  middle part is \<open>pre\<close>, a middle part of its own, and \<open>post\<close>.
\<close>

lemma frame_split:
  assumes len: "length a = length (pre @ mid @ post)"
    and fr: "\<forall>k. 0 \<le> k \<and> (k < int (length pre) \<or> int (length pre) + int (length mid) - 1 < k)
               \<longrightarrow> a ! nat k = (pre @ mid @ post) ! nat k"
  shows "a = pre @ take (length mid) (drop (length pre) a) @ post"
proof -
  have fr_n: "a ! n = (pre @ mid @ post) ! n" if "n < length pre \<or> length pre + length mid \<le> n" for n
  proof -
    from that have "0 \<le> int n \<and> (int n < int (length pre) \<or> int (length pre) + int (length mid) - 1 < int n)"
      by auto
    with fr have "a ! nat (int n) = (pre @ mid @ post) ! nat (int n)" by blast
    then show ?thesis by simp
  qed
  have p: "take (length pre) a = pre"
  proof (rule nth_equalityI)
    show "length (take (length pre) a) = length pre" using len by simp
  next
    fix n assume "n < length (take (length pre) a)"
    then have n: "n < length pre" by simp
    with fr_n[of n] show "take (length pre) a ! n = pre ! n" by (simp add: nth_append)
  qed
  have q: "drop (length pre + length mid) a = post"
  proof (rule nth_equalityI)
    show "length (drop (length pre + length mid) a) = length post" using len by simp
  next
    fix n assume "n < length (drop (length pre + length mid) a)"
    then have n: "n < length post" using len by simp
    have "drop (length pre + length mid) a ! n = a ! (length pre + length mid + n)"
      using len n by simp
    also have "\<dots> = (pre @ mid @ post) ! (length pre + length mid + n)"
      using fr_n[of "length pre + length mid + n"] by simp
    also have "\<dots> = post ! n"
      using nth_append_length_plus[of "pre @ mid" post n] by simp
    finally show "drop (length pre + length mid) a ! n = post ! n" .
  qed
  have "a = take (length pre) a @ drop (length pre) a" by simp
  also have "drop (length pre) a
      = take (length mid) (drop (length pre) a) @ drop (length mid) (drop (length pre) a)"
    by (simp only: append_take_drop_id)
  also have "drop (length mid) (drop (length pre) a) = post"
    using q by (simp add: add.commute)
  finally show ?thesis using p by simp
qed

lemma partition3Way_struct:
  assumes low: "low = int (length pre)" and high: "high = low + int (length mid) - 1"
    and ne: "mid \<noteq> []"
  shows "\<exists>L E G pivot. partition3Way (pre @ mid @ post) low high
            = Inr (pre @ L @ E @ G @ post, low + int (length L),
                   low + int (length L) + int (length E) - 1)
     \<and> E \<noteq> [] \<and> mset (L @ E @ G) = mset mid
     \<and> (\<forall>x\<in>set L. x < pivot) \<and> (\<forall>x\<in>set E. x = pivot) \<and> (\<forall>x\<in>set G. pivot < x)"
proof -
  let ?arr = "pre @ mid @ post"
  have b: "0 \<le> low" "low \<le> high" "high < int (length ?arr)"
    using low high ne by (simp_all add: Suc_leI)
  from partition3Way_spec[OF b] obtain a lt gt pivot where
    res: "partition3Way ?arr low high = Inr (a, lt, gt)"
      and la: "length a = length ?arr" and ma: "mset a = mset ?arr"
      and o: "low \<le> lt" "lt \<le> gt" "gt \<le> high"
      and zl: "\<forall>k. low \<le> k \<and> k < lt \<longrightarrow> a ! nat k < pivot"
      and ze: "\<forall>k. lt \<le> k \<and> k \<le> gt \<longrightarrow> a ! nat k = pivot"
      and zg: "\<forall>k. gt < k \<and> k \<le> high \<longrightarrow> a ! nat k > pivot"
      and fr: "\<forall>k. 0 \<le> k \<and> (k < low \<or> high < k) \<longrightarrow> a ! nat k = ?arr ! nat k"
    by blast
  define M where "M = take (length mid) (drop (length pre) a)"
  have a: "a = pre @ M @ post"
    unfolding M_def using frame_split[OF la] fr low high by simp
  have lM: "length M = length mid" using la by (simp add: M_def)
  have mM: "mset M = mset mid" using ma a by simp
  have nthM: "M ! n = a ! nat (low + int n)" if "n < length M" for n
  proof -
    have "nat (low + int n) = length pre + n" using low by (simp add: nat_add_distrib)
    then show ?thesis using that a by (simp add: nth_append)
  qed
  define nl where "nl = nat (lt - low)"
  define ne where "ne = nat (gt - lt + 1)"
  define L where "L = take nl M"
  define E where "E = take ne (drop nl M)"
  define G where "G = drop (nl + ne) M"
  have sz: "nl + ne \<le> length M" using o high lM by (simp add: nl_def ne_def)
  have M: "M = L @ E @ G"
    unfolding L_def E_def G_def
    by (metis add.commute append_take_drop_id drop_drop)
  have lL: "length L = nl" using sz by (simp add: L_def)
  have lE: "length E = ne" using sz by (simp add: E_def)
  have lt: "lt = low + int (length L)" using o by (simp add: lL nl_def)
  have gt: "gt = low + int (length L) + int (length E) - 1" using o by (simp add: lL lE nl_def ne_def)
  have "E \<noteq> []" using lE o by (auto simp: ne_def)
  moreover have "\<forall>x\<in>set L. x < pivot"
  proof
    fix x assume "x \<in> set L"
    then obtain n where n: "n < length L" "x = L ! n" by (auto simp: in_set_conv_nth)
    then have "x = M ! n" by (simp add: L_def)
    also have "\<dots> = a ! nat (low + int n)" using n sz lL by (intro nthM) simp
    finally show "x < pivot" using zl n(1) lt by simp
  qed
  moreover have "\<forall>x\<in>set E. x = pivot"
  proof
    fix x assume "x \<in> set E"
    then obtain n where n: "n < length E" "x = E ! n" by (auto simp: in_set_conv_nth)
    then have "x = M ! (nl + n)" using sz lE by (simp add: E_def)
    also have "\<dots> = a ! nat (low + int (nl + n))" using n sz lE by (intro nthM) simp
    finally show "x = pivot" using ze n(1) lt gt lL by simp
  qed
  moreover have "\<forall>x\<in>set G. pivot < x"
  proof
    fix x assume "x \<in> set G"
    then obtain n where n: "n < length G" "x = G ! n" by (auto simp: in_set_conv_nth)
    then have "x = M ! (nl + ne + n)" using sz by (simp add: G_def)
    also have "\<dots> = a ! nat (low + int (nl + ne + n))" using n sz by (intro nthM) (simp add: G_def)
    finally have "x = a ! nat (low + int (nl + ne + n))" .
    moreover have "gt < low + int (nl + ne + n)" using gt lL lE by simp
    moreover have "low + int (nl + ne + n) \<le> high" using n(1) high lM by (simp add: G_def)
    ultimately show "pivot < x" using zg by simp
  qed
  moreover have "mset (L @ E @ G) = mset mid" using mM M by simp
  moreover have "partition3Way ?arr low high
     = Inr (pre @ L @ E @ G @ post, low + int (length L), low + int (length L) + int (length E) - 1)"
    using res a M lt gt by simp
  ultimately show ?thesis by blast
qed

section \<open>The quicksort sorts its range\<close>

lemma sort_three_zones:
  fixes pivot :: int
  assumes "mset (L @ E @ G) = mset mid"
    and "\<forall>x\<in>set L. x < pivot" "\<forall>x\<in>set E. x = pivot" "\<forall>x\<in>set G. pivot < x"
  shows "sort mid = sort L @ E @ sort G"
proof (rule properties_for_sort)
  show "mset (sort L @ E @ sort G) = mset mid" using assms(1) by simp
next
  have "sorted E" using assms(3) by (induction E) auto
  moreover have "x \<le> y" if "x \<in> set L" "y \<in> set G" for x y
  proof -
    from that assms(2,4) have "x < pivot" "pivot < y" by auto
    then show ?thesis by simp
  qed
  ultimately show "sorted (sort L @ E @ sort G)"
    using assms(2-4) by (auto simp: sorted_append less_imp_le)
qed

lemma quickSortHelper_struct:
  "low = int (length pre) \<Longrightarrow> high = low + int (length mid) - 1 \<Longrightarrow>
     quickSortHelper (pre @ mid @ post) low high = Inr (pre @ sort mid @ post)"
proof (induction "length mid" arbitrary: mid pre post low high rule: less_induct)
  case less
  note low = less.prems(1) and high = less.prems(2)
  let ?arr = "pre @ mid @ post"
  show ?case
  proof (cases "low < high")
    case False
    then have "length mid \<le> 1" using high by simp
    then have "sort mid = mid" by (simp add: sorted01 sorted_sort_id)
    then show ?thesis by (subst quickSortHelper.simps) (simp add: False)
  next
    case True
    show ?thesis
    proof (cases "high - low + 1 \<le> 16")
      case small: True
      show ?thesis
        by (subst quickSortHelper.simps) (simp add: True small insertionSort_struct[OF low high])
    next
      case big: False
      have ne: "mid \<noteq> []" using True high by auto
      from partition3Way_struct[OF low high ne, of post]
      obtain L E G pivot where
        part: "partition3Way ?arr low high
                = Inr (pre @ L @ E @ G @ post, low + int (length L),
                       low + int (length L) + int (length E) - 1)"
        and E: "E \<noteq> []" and ms: "mset (L @ E @ G) = mset mid"
        and z: "\<forall>x\<in>set L. x < pivot" "\<forall>x\<in>set E. x = pivot" "\<forall>x\<in>set G. pivot < x"
        by blast
      let ?lt = "low + int (length L)" and ?gt = "low + int (length L) + int (length E) - 1"
      have len: "length mid = length L + length E + length G"
        using arg_cong[OF ms, of size] by simp
      have lE: "0 < length E" using E by simp
      have srt: "sort mid = sort L @ E @ sort G" using sort_three_zones[OF ms z] .
      have left: "quickSortHelper (pre @ L @ post') low (?lt - 1) = Inr (pre @ sort L @ post')" for post'
        using less.hyps[of L low pre "?lt - 1" post'] low len lE by simp
      have right: "quickSortHelper ((pre @ X @ E) @ G @ post) (?gt + 1) high = Inr ((pre @ X @ E) @ sort G @ post)"
        if "length X = length L" for X
        using less.hyps[of G "?gt + 1" "pre @ X @ E" high post] that low high len lE by simp
      show ?thesis
      proof (cases "?lt - low < high - ?gt")
        case True
        have "quickSortHelper ?arr low high = Inr (pre @ sort L @ E @ sort G @ post)"
          apply (subst quickSortHelper.simps)
          using \<open>low < high\<close> big part True left[of "E @ G @ post"] right[of "sort L"]
          by simp
        with srt show ?thesis by simp
      next
        case False
        have "quickSortHelper ?arr low high = Inr (pre @ sort L @ E @ sort G @ post)"
          apply (subst quickSortHelper.simps)
          using \<open>low < high\<close> big part False right[of L] left[of "E @ sort G @ post"]
          by simp
        with srt show ?thesis by simp
      qed
    qed
  qed
qed

lemma quickSort_sort: "quickSort arr = Inr (sort arr)"
proof (cases "length arr < 2")
  case True
  then have "length arr \<le> 1" by simp
  then have "sort arr = arr" by (simp add: sorted01 sorted_sort_id)
  with True show ?thesis by (simp add: quickSort_def)
next
  case False
  have "quickSortHelper ([] @ arr @ []) 0 (int (length arr) - 1) = Inr ([] @ sort arr @ [])"
    by (rule quickSortHelper_struct) simp_all
  with False show ?thesis by (simp add: quickSort_def)
qed

section \<open>What stays outside the range\<close>

lemma range_split:
  assumes "0 \<le> low" "low \<le> high + 1" "high < int (length arr)"
  shows "\<exists>pre mid post. arr = pre @ mid @ post \<and> low = int (length pre)
           \<and> high = low + int (length mid) - 1"
proof (intro exI conjI)
  show "arr = take (nat low) arr @ take (nat (high + 1 - low)) (drop (nat low) arr)
              @ drop (nat (high + 1 - low)) (drop (nat low) arr)"
    by (simp only: append_take_drop_id)
  show "low = int (length (take (nat low) arr))" using assms by simp
  show "high = low + int (length (take (nat (high + 1 - low)) (drop (nat low) arr))) - 1"
    using assms by simp
qed

lemma struct_frame:
  assumes "length mid' = length mid"
    and "int n < int (length pre) \<or> int (length pre) + int (length mid) - 1 < int n"
  shows "(pre @ mid' @ post) ! n = (pre @ mid @ post) ! n"
proof (cases "n < length pre")
  case True
  then show ?thesis by (simp add: nth_append)
next
  case False
  with assms(2) have "length pre + length mid \<le> n" by simp
  then obtain m where n: "n = length pre + length mid + m"
    using le_Suc_ex by blast
  have "((pre @ mid') @ post) ! (length (pre @ mid') + m) = post ! m"
    by (rule nth_append_length_plus)
  moreover have "((pre @ mid) @ post) ! (length (pre @ mid) + m) = post ! m"
    by (rule nth_append_length_plus)
  ultimately show ?thesis using assms(1) n by simp
qed

lemma quickSortHelper_frame_low:
  assumes "0 \<le> low" "low \<le> high + 1" "high < int (length arr)"
  shows "\<exists>a. quickSortHelper arr low high = Inr a \<and> length a = length arr \<and> mset a = mset arr \<and>
           (\<forall>n. n < length arr \<and> (int n < low \<or> high < int n) \<longrightarrow> a ! n = arr ! n)"
proof -
  from range_split[OF assms] obtain pre mid post where
    s: "arr = pre @ mid @ post" "low = int (length pre)" "high = low + int (length mid) - 1"
    by blast
  have "quickSortHelper arr low high = Inr (pre @ sort mid @ post)"
    unfolding s(1) by (rule quickSortHelper_struct[OF s(2,3)])
  moreover have "(pre @ sort mid @ post) ! n = arr ! n" if "int n < low \<or> high < int n" for n
    unfolding s(1) using that s(2,3) by (intro struct_frame) simp_all
  ultimately show ?thesis using s(1) by simp
qed

lemma insertionSort_frame_low:
  assumes "0 \<le> low" "low \<le> high + 1" "high < int (length arr)"
  shows "\<exists>a. insertionSort arr low high = Inr a \<and> length a = length arr \<and> mset a = mset arr \<and>
           (\<forall>n. n < length arr \<and> (int n < low \<or> high < int n) \<longrightarrow> a ! n = arr ! n)"
proof -
  from range_split[OF assms] obtain pre mid post where
    s: "arr = pre @ mid @ post" "low = int (length pre)" "high = low + int (length mid) - 1"
    by blast
  have "insertionSort arr low high = Inr (pre @ sort mid @ post)"
    unfolding s(1) by (rule insertionSort_struct[OF s(2,3)])
  moreover have "(pre @ sort mid @ post) ! n = arr ! n" if "int n < low \<or> high < int n" for n
    unfolding s(1) using that s(2,3) by (intro struct_frame) simp_all
  ultimately show ?thesis using s(1) by simp
qed

lemma partition3Way_frame_low:
  assumes "0 \<le> low" "low \<le> high" "high < int (length arr)"
  shows "\<exists>a lt gt. partition3Way arr low high = Inr (a, lt, gt) \<and> length a = length arr \<and>
           (\<forall>n. n < length arr \<and> (int n < low \<or> high < int n) \<longrightarrow> a ! n = arr ! n)"
proof -
  from partition3Way_spec[OF assms] obtain a lt gt where
    r: "partition3Way arr low high = Inr (a, lt, gt)" "length a = length arr"
       "\<forall>k. 0 \<le> k \<and> (k < low \<or> high < k) \<longrightarrow> a ! nat k = arr ! nat k"
    by blast
  have "a ! n = arr ! n" if "int n < low \<or> high < int n" for n
    using r(3)[rule_format, of "int n"] that by simp
  with r(1,2) show ?thesis by simp
qed

lemma medianOfThree_frame_low:
  assumes "0 \<le> low" "low \<le> high" "high < int (length arr)"
  shows "\<exists>a. medianOfThree arr low ((low + high) sdiv 2) high = Inr a \<and> length a = length arr \<and>
           (\<forall>n. n < length arr \<and> (int n < low \<or> high < int n) \<longrightarrow> a ! n = arr ! n)"
proof -
  let ?m = "(low + high) sdiv 2"
  have m: "low \<le> ?m" "?m \<le> high" using sdiv2_mid[OF assms(1,2)] by simp_all
  have inb: "inb arr low" "inb arr ?m" "inb arr high" using assms m by (simp_all add: inb_def)
  from medianOfThree_spec[OF inb] obtain r where
    r: "medianOfThree arr low ?m high = Inr r" "length r = length arr"
       "\<forall>k. 0 \<le> k \<and> k \<noteq> low \<and> k \<noteq> ?m \<and> k \<noteq> high \<longrightarrow> r ! nat k = arr ! nat k"
    by blast
  have "r ! n = arr ! n" if "int n < low \<or> high < int n" for n
    using r(3)[rule_format, of "int n"] that m assms by auto
  with r(1,2) show ?thesis by simp
qed


section \<open>The gate during a fork\<close>

text \<open>
  An attempt appends itself to the log; a release that follows a successful attempt puts
  the channel back as it was. A forked task whose two ways both return the same result,
  the gated one with a balanced log, returns that result with a balanced log.
\<close>

lemma acquired_append [simp]: "acquired (xs @ ys) = acquired xs + acquired ys"
  by (induction xs rule: acquired.induct) simp_all

lemma released_append [simp]: "released (xs @ ys) = released xs + released ys"
  by (induction xs rule: released.induct) simp_all

lemma pool_restore:
  "map_option (\<lambda>g. g\<lparr>occ := occ g - 1\<rparr>) (map_option (\<lambda>g. g\<lparr>occ := occ g + 1\<rparr>) p) = p"
  by (cases p) simp_all

lemma try_acquire_effect:
  obtains ok w1 where "try_acquire zone w = (ok, w1)"
    "trace w1 = trace w @ [TryAcquire zone ok]"
    "workerPoolOnce w1 = workerPoolOnce w"
    "workerPool w1 = (if ok then map_option (\<lambda>g. g\<lparr>occ := occ g + 1\<rparr>) (workerPool w) else workerPool w)"
  by (simp add: try_acquire_def Let_def)

lemma release_effect:
  "trace (release w) = trace w @ [Release]"
  "workerPoolOnce (release w) = workerPoolOnce w"
  "workerPool (release w) = map_option (\<lambda>g. g\<lparr>occ := occ g - 1\<rparr>) (workerPool w)"
  by (simp_all add: release_def)

lemma fork_task_run:
  assumes par: "\<And>w1. \<exists>w2 evs. par w1 = Returned (r, w2) \<and> workerPool w2 = workerPool w1 \<and>
                  workerPoolOnce w2 = workerPoolOnce w1 \<and> trace w2 = trace w1 @ evs \<and>
                  acquired evs = released evs \<and> (small \<longrightarrow> evs = [])"
    and seq: "\<And>w1. seq w1 = Returned (r, w1)"
  shows "\<exists>w' ok evs. fork_task zone par seq w = Returned (r, w') \<and> workerPool w' = workerPool w \<and>
           workerPoolOnce w' = workerPoolOnce w \<and> trace w' = trace w @ TryAcquire zone ok # evs \<and>
           acquired (TryAcquire zone ok # evs) = released (TryAcquire zone ok # evs) \<and>
           (small \<longrightarrow> evs = (if ok then [Release] else []))"
proof -
  obtain ok w1 where t: "try_acquire zone w = (ok, w1)"
    "trace w1 = trace w @ [TryAcquire zone ok]"
    "workerPoolOnce w1 = workerPoolOnce w"
    "workerPool w1 = (if ok then map_option (\<lambda>g. g\<lparr>occ := occ g + 1\<rparr>) (workerPool w) else workerPool w)"
    by (rule try_acquire_effect)
  show ?thesis
  proof (cases ok)
    case True
    from par[of w1] obtain w2 evs where
      p: "par w1 = Returned (r, w2)" "workerPool w2 = workerPool w1"
         "workerPoolOnce w2 = workerPoolOnce w1" "trace w2 = trace w1 @ evs"
         "acquired evs = released evs" "small \<longrightarrow> evs = []"
      by blast
    have "fork_task zone par seq w = Returned (r, release w2)"
      by (simp add: fork_task_def t(1) True p(1))
    moreover have "workerPool (release w2) = workerPool w"
      unfolding release_effect p(2) t(4) using True pool_restore[of "workerPool w"] by simp
    moreover have "workerPoolOnce (release w2) = workerPoolOnce w"
      by (simp add: release_effect p(3) t(3))
    moreover have "trace (release w2) = trace w @ TryAcquire zone ok # (evs @ [Release])"
      by (simp add: release_effect p(4) t(2))
    moreover have "acquired (TryAcquire zone ok # (evs @ [Release])) = released (TryAcquire zone ok # (evs @ [Release]))"
      by (simp add: True p(5))
    moreover have "small \<longrightarrow> evs @ [Release] = (if ok then [Release] else [])"
      using p(6) True by simp
    ultimately show ?thesis by blast
  next
    case False
    have "fork_task zone par seq w = Returned (r, w1)"
      by (simp add: fork_task_def t(1) False seq)
    moreover have "workerPool w1 = workerPool w" by (simp add: t(4) False)
    moreover have "trace w1 = trace w @ TryAcquire zone ok # []" by (simp add: t(2))
    moreover have "acquired (TryAcquire zone ok # []) = released (TryAcquire zone ok # [])"
      by (simp add: False)
    moreover have "small \<longrightarrow> [] = (if ok then [Release] else [])" by (simp add: False)
    ultimately show ?thesis using t(3) by blast
  qed
qed

lemma sdiv2_less: "1 < depth \<Longrightarrow> nat (depth sdiv 2) < nat (depth :: int)"
  by (auto simp: signed_divide_int_def sgn_if)

text \<open>
  The fork step, given that the calls one level down do what they should: the partition,
  one attempt on the gate for each zone, and the sorted range. A zone of at most one
  element adds nothing to the log but its attempt and, when the slot was taken, the
  release.
\<close>

lemma parallelQuickSortHelper_fork:
  assumes low: "low = int (length pre)" and high: "high = low + int (length mid) - 1"
    and lh: "low < high"
    and fork: "\<not> (depth \<le> 1 \<or> high - low + 1
                  \<le> getOptimalThreshold (int (length (pre @ mid @ post))) (high - low + 1))"
    and sub: "\<And>pre' mid' post' low' high' w1.
        low' = int (length pre') \<Longrightarrow> high' = low' + int (length mid') - 1 \<Longrightarrow>
        \<exists>w2 evs. parallelQuickSortHelper (pre' @ mid' @ post', w1) low' high' (depth sdiv 2)
                    = Returned (pre' @ sort mid' @ post', w2)
          \<and> workerPool w2 = workerPool w1 \<and> workerPoolOnce w2 = workerPoolOnce w1
          \<and> trace w2 = trace w1 @ evs \<and> acquired evs = released evs
          \<and> (high' \<le> low' \<longrightarrow> evs = [])"
  shows "\<exists>a lt gt w' ok1 evs1 ok2 evs2.
      partition3Way (pre @ mid @ post) low high = Inr (a, lt, gt)
    \<and> parallelQuickSortHelper (pre @ mid @ post, w) low high depth
        = Returned (pre @ sort mid @ post, w')
    \<and> workerPool w' = workerPool w \<and> workerPoolOnce w' = workerPoolOnce w
    \<and> trace w' = trace w @ (TryAcquire (lt - low) ok1 # evs1) @ (TryAcquire (high - gt) ok2 # evs2)
    \<and> acquired ((TryAcquire (lt - low) ok1 # evs1) @ (TryAcquire (high - gt) ok2 # evs2))
        = released ((TryAcquire (lt - low) ok1 # evs1) @ (TryAcquire (high - gt) ok2 # evs2))
    \<and> (lt - low \<le> 1 \<longrightarrow> evs1 = (if ok1 then [Release] else []))
    \<and> (high - gt \<le> 1 \<longrightarrow> evs2 = (if ok2 then [Release] else []))"
proof -
  let ?arr = "pre @ mid @ post"
  have ne: "mid \<noteq> []" using lh high by auto
  from partition3Way_struct[OF low high ne, of post]
  obtain L E G pivot where
    part: "partition3Way ?arr low high
            = Inr (pre @ L @ E @ G @ post, low + int (length L),
                   low + int (length L) + int (length E) - 1)"
    and E: "E \<noteq> []" and ms: "mset (L @ E @ G) = mset mid"
    and z: "\<forall>x\<in>set L. x < pivot" "\<forall>x\<in>set E. x = pivot" "\<forall>x\<in>set G. pivot < x"
    by blast
  let ?lt = "low + int (length L)" and ?gt = "low + int (length L) + int (length E) - 1"
  let ?a = "pre @ L @ E @ G @ post"
  let ?b = "pre @ sort L @ E @ G @ post"
  let ?c = "pre @ sort L @ E @ sort G @ post"
  have len: "length mid = length L + length E + length G"
    using arg_cong[OF ms, of size] by simp
  have lE: "0 < length E" using E by simp
  have srt: "sort mid = sort L @ E @ sort G" using sort_three_zones[OF ms z] .
  have par1: "\<exists>w2 evs. parallelQuickSortHelper (?a, w1) low (?lt - 1) (depth sdiv 2) = Returned (?b, w2)
      \<and> workerPool w2 = workerPool w1 \<and> workerPoolOnce w2 = workerPoolOnce w1
      \<and> trace w2 = trace w1 @ evs \<and> acquired evs = released evs
      \<and> (?lt - low \<le> 1 \<longrightarrow> evs = [])" for w1
    using sub[of low pre "?lt - 1" L "E @ G @ post" w1] low by auto
  have seq1: "in_world (quickSortHelper ?a low (?lt - 1)) w1 = Returned (?b, w1)" for w1
    using quickSortHelper_struct[of low pre "?lt - 1" L "E @ G @ post"] low
    by (simp add: in_world_def)
  from fork_task_run[where par="\<lambda>w1. parallelQuickSortHelper (?a, w1) low (?lt - 1) (depth sdiv 2)"
        and seq="in_world (quickSortHelper ?a low (?lt - 1))" and small="?lt - low \<le> 1" and r="?b"
        and zone="?lt - low" and w=w, OF par1 seq1]
  obtain w2 ok1 evs1 where
    f1: "fork_task (?lt - low) (\<lambda>w1. parallelQuickSortHelper (?a, w1) low (?lt - 1) (depth sdiv 2))
           (in_world (quickSortHelper ?a low (?lt - 1))) w = Returned (?b, w2)"
      "workerPool w2 = workerPool w" "workerPoolOnce w2 = workerPoolOnce w"
      "trace w2 = trace w @ TryAcquire (?lt - low) ok1 # evs1"
      "acquired (TryAcquire (?lt - low) ok1 # evs1) = released (TryAcquire (?lt - low) ok1 # evs1)"
      "?lt - low \<le> 1 \<longrightarrow> evs1 = (if ok1 then [Release] else [])"
    by blast
  have g1: "?gt + 1 = int (length (pre @ sort L @ E))" using low by simp
  have g2: "high = ?gt + 1 + int (length G) - 1" using high len by simp
  have par2: "\<exists>w2 evs. parallelQuickSortHelper (?b, w1) (?gt + 1) high (depth sdiv 2) = Returned (?c, w2)
      \<and> workerPool w2 = workerPool w1 \<and> workerPoolOnce w2 = workerPoolOnce w1
      \<and> trace w2 = trace w1 @ evs \<and> acquired evs = released evs
      \<and> (high - ?gt \<le> 1 \<longrightarrow> evs = [])" for w1
    using sub[of "?gt + 1" "pre @ sort L @ E" high G post w1] g1 g2 by auto
  have seq2: "in_world (quickSortHelper ?b (?gt + 1) high) w1 = Returned (?c, w1)" for w1
    using quickSortHelper_struct[of "?gt + 1" "pre @ sort L @ E" high G post] g1 g2
    by (simp add: in_world_def)
  from fork_task_run[where par="\<lambda>w1. parallelQuickSortHelper (?b, w1) (?gt + 1) high (depth sdiv 2)"
        and seq="in_world (quickSortHelper ?b (?gt + 1) high)" and small="high - ?gt \<le> 1" and r="?c"
        and zone="high - ?gt" and w=w2, OF par2 seq2]
  obtain w3 ok2 evs2 where
    f2: "fork_task (high - ?gt) (\<lambda>w1. parallelQuickSortHelper (?b, w1) (?gt + 1) high (depth sdiv 2))
           (in_world (quickSortHelper ?b (?gt + 1) high)) w2 = Returned (?c, w3)"
      "workerPool w3 = workerPool w2" "workerPoolOnce w3 = workerPoolOnce w2"
      "trace w3 = trace w2 @ TryAcquire (high - ?gt) ok2 # evs2"
      "acquired (TryAcquire (high - ?gt) ok2 # evs2) = released (TryAcquire (high - ?gt) ok2 # evs2)"
      "high - ?gt \<le> 1 \<longrightarrow> evs2 = (if ok2 then [Release] else [])"
    by blast
  have run: "parallelQuickSortHelper (?arr, w) low high depth = Returned (pre @ sort mid @ post, w3)"
    apply (subst parallelQuickSortHelper.simps)
    using lh fork part f1(1) f2(1) srt by (simp add: Let_def)
  have tr: "trace w3 = trace w @ (TryAcquire (?lt - low) ok1 # evs1) @ (TryAcquire (high - ?gt) ok2 # evs2)"
    by (simp add: f2(4) f1(4))
  have bal: "acquired ((TryAcquire (?lt - low) ok1 # evs1) @ (TryAcquire (high - ?gt) ok2 # evs2))
           = released ((TryAcquire (?lt - low) ok1 # evs1) @ (TryAcquire (high - ?gt) ok2 # evs2))"
    using f1(5) f2(5) by (simp only: acquired_append released_append)
  have pool: "workerPool w3 = workerPool w" "workerPoolOnce w3 = workerPoolOnce w"
    using f1(2,3) f2(2,3) by simp_all
  from part run pool tr bal f1(6) f2(6) show ?thesis by blast
qed

lemma parallelQuickSortHelper_struct:
  "low = int (length pre) \<Longrightarrow> high = low + int (length mid) - 1 \<Longrightarrow>
     \<exists>w' evs. parallelQuickSortHelper (pre @ mid @ post, w) low high depth
                 = Returned (pre @ sort mid @ post, w')
       \<and> workerPool w' = workerPool w \<and> workerPoolOnce w' = workerPoolOnce w
       \<and> trace w' = trace w @ evs \<and> acquired evs = released evs \<and> (high \<le> low \<longrightarrow> evs = [])"
proof (induction "nat depth" arbitrary: depth pre mid post low high w rule: less_induct)
  case less
  note low = less.prems(1) and high = less.prems(2)
  let ?arr = "pre @ mid @ post"
  let ?size = "high - low + 1"
  let ?thr = "getOptimalThreshold (int (length ?arr)) ?size"
  show ?case
  proof (cases "low < high")
    case False
    then have "length mid \<le> 1" using high by simp
    then have "sort mid = mid" by (simp add: sorted01 sorted_sort_id)
    then have "parallelQuickSortHelper (?arr, w) low high depth = Returned (pre @ sort mid @ post, w)"
      by (subst parallelQuickSortHelper.simps) (simp add: False Let_def)
    then show ?thesis by (intro exI[of _ w] exI[of _ "[]"]) simp
  next
    case True
    show ?thesis
    proof (cases "depth \<le> 1 \<or> ?size \<le> ?thr")
      case deleg: True
      have "parallelQuickSortHelper (?arr, w) low high depth = Returned (pre @ sort mid @ post, w)"
        apply (subst parallelQuickSortHelper.simps)
        using True deleg quickSortHelper_struct[OF low high, of post]
        by (simp add: Let_def in_world_def)
      then show ?thesis using True by (intro exI[of _ w] exI[of _ "[]"]) simp
    next
      case fork: False
      then have d: "1 < depth" by simp
      have sub: "\<exists>w2 evs. parallelQuickSortHelper (pre' @ mid' @ post', w1) low' high' (depth sdiv 2)
                    = Returned (pre' @ sort mid' @ post', w2)
          \<and> workerPool w2 = workerPool w1 \<and> workerPoolOnce w2 = workerPoolOnce w1
          \<and> trace w2 = trace w1 @ evs \<and> acquired evs = released evs
          \<and> (high' \<le> low' \<longrightarrow> evs = [])"
        if "low' = int (length pre')" "high' = low' + int (length mid') - 1"
        for pre' mid' post' low' high' w1
        using less.hyps[OF sdiv2_less[OF d] that] .
      from parallelQuickSortHelper_fork[OF low high True fork sub, of w] True
      show ?thesis by (metis not_le)
    qed
  qed
qed

section \<open>The parallel merge scheduler\<close>

lemma merge_sorted_sides: "merge (sort xs) (sort ys) = sort (xs @ ys)"
proof -
  have "sort (xs @ ys) = merge_by (\<lambda>x. x) (sort xs) (sort ys)"
  proof (rule properties_for_sort)
    show "mset (merge_by (\<lambda>x. x) (sort xs) (sort ys)) = mset (xs @ ys)"
      by (simp add: merge_by_mset)
    show "sorted (merge_by (\<lambda>x. x) (sort xs) (sort ys))"
      using merge_by_sorted[of "\<lambda>x. x" "sort xs" "sort ys"] by simp
  qed
  then show ?thesis by (simp add: merge_by_id)
qed

lemma getOptimalThreshold_le: "getOptimalThreshold n c \<le> n"
  by (simp add: getOptimalThreshold_def)

lemma parallelMergeSortHelper_run:
  "\<exists>w' evs. parallelMergeSortHelper arr depth w = Returned (sort arr, w')
       \<and> workerPool w' = workerPool w \<and> workerPoolOnce w' = workerPoolOnce w
       \<and> trace w' = trace w @ evs \<and> acquired evs = released evs"
proof (induction "nat depth" arbitrary: depth arr w rule: less_induct)
  case less
  show ?case
  proof (cases "length arr \<le> 1")
    case True
    then have "sort arr = arr" by (simp add: sorted01 sorted_sort_id)
    then have "parallelMergeSortHelper arr depth w = Returned (sort arr, w)"
      by (subst parallelMergeSortHelper.simps) (use True in simp)
    then show ?thesis by (intro exI[of _ w] exI[of _ "[]"]) simp
  next
    case False
    show ?thesis
    proof (cases "depth \<le> 1")
      case deleg: True
      have "parallelMergeSortHelper arr depth w = Returned (sort arr, w)"
        by (subst parallelMergeSortHelper.simps)
           (use False deleg in \<open>simp add: Let_def value_in_world_def mergeSort_sort\<close>)
      then show ?thesis by (intro exI[of _ w] exI[of _ "[]"]) simp
    next
      case fork: False
      then have d: "1 < depth" by simp
      have nothr: "\<not> int (length arr) < getOptimalThreshold (int (length arr)) (int (length arr))"
        using getOptimalThreshold_le[of "int (length arr)" "int (length arr)"] by linarith
      let ?mid = "length arr div 2"
      let ?l = "take ?mid arr" and ?r = "drop ?mid arr"
      have par: "\<exists>w2 evs. parallelMergeSortHelper xs (depth sdiv 2) w1 = Returned (sort xs, w2)
          \<and> workerPool w2 = workerPool w1 \<and> workerPoolOnce w2 = workerPoolOnce w1
          \<and> trace w2 = trace w1 @ evs \<and> acquired evs = released evs \<and> (False \<longrightarrow> evs = [])" for w1 xs
        using less.hyps[OF sdiv2_less[OF d], of xs w1] by auto
      have seq: "value_in_world (mergeSort xs) w1 = Returned (sort xs, w1)" for w1 xs
        by (simp add: value_in_world_def mergeSort_sort)
      from fork_task_run[where par="parallelMergeSortHelper ?l (depth sdiv 2)"
            and seq="value_in_world (mergeSort ?l)" and small=False and r="sort ?l"
            and zone="int (length ?l)" and w=w, OF par seq]
      obtain w2 ok1 evs1 where
        f1: "fork_task (int (length ?l)) (parallelMergeSortHelper ?l (depth sdiv 2))
               (value_in_world (mergeSort ?l)) w = Returned (sort ?l, w2)"
          "workerPool w2 = workerPool w" "workerPoolOnce w2 = workerPoolOnce w"
          "trace w2 = trace w @ TryAcquire (int (length ?l)) ok1 # evs1"
          "acquired (TryAcquire (int (length ?l)) ok1 # evs1) = released (TryAcquire (int (length ?l)) ok1 # evs1)"
        by blast
      from fork_task_run[where par="parallelMergeSortHelper ?r (depth sdiv 2)"
            and seq="value_in_world (mergeSort ?r)" and small=False and r="sort ?r"
            and zone="int (length ?r)" and w=w2, OF par seq]
      obtain w3 ok2 evs2 where
        f2: "fork_task (int (length ?r)) (parallelMergeSortHelper ?r (depth sdiv 2))
               (value_in_world (mergeSort ?r)) w2 = Returned (sort ?r, w3)"
          "workerPool w3 = workerPool w2" "workerPoolOnce w3 = workerPoolOnce w2"
          "trace w3 = trace w2 @ TryAcquire (int (length ?r)) ok2 # evs2"
          "acquired (TryAcquire (int (length ?r)) ok2 # evs2) = released (TryAcquire (int (length ?r)) ok2 # evs2)"
        by blast
      have m: "merge (sort ?l) (sort ?r) = sort arr"
        using merge_sorted_sides[of ?l ?r] by simp
      have run: "parallelMergeSortHelper arr depth w = Returned (sort arr, w3)"
        apply (subst parallelMergeSortHelper.simps)
        using False fork nothr f1(1) f2(1) m by (simp add: Let_def)
      have tr: "trace w3 = trace w @ (TryAcquire (int (length ?l)) ok1 # evs1) @ (TryAcquire (int (length ?r)) ok2 # evs2)"
        by (simp add: f2(4) f1(4))
      have bal: "acquired ((TryAcquire (int (length ?l)) ok1 # evs1) @ (TryAcquire (int (length ?r)) ok2 # evs2))
               = released ((TryAcquire (int (length ?l)) ok1 # evs1) @ (TryAcquire (int (length ?r)) ok2 # evs2))"
        using f1(5) f2(5) by (simp only: acquired_append released_append)
      show ?thesis
        apply (rule exI[of _ w3])
        apply (rule exI[of _ "(TryAcquire (int (length ?l)) ok1 # evs1) @ (TryAcquire (int (length ?r)) ok2 # evs2)"])
        using run f1(2,3) f2(2,3) tr bal by simp
    qed
  qed
qed

lemma initWorkerPool_trace: "trace (initWorkerPool ncpu w) = trace w"
  by (simp add: initWorkerPool_def)

lemma initWorkerPool_occupancy:
  assumes "workerPool w = None \<or> workerPoolOnce w"
  shows "fst (getWorkerPoolStatus (initWorkerPool ncpu w)) = fst (getWorkerPoolStatus w)"
proof (cases "workerPoolOnce w")
  case True
  then show ?thesis by (simp add: initWorkerPool_def)
next
  case False
  with assms have "workerPool w = None" by simp
  with False show ?thesis by (simp add: initWorkerPool_def getWorkerPoolStatus_def)
qed

lemma parallelQuickSort_run:
  "\<exists>w' evs. parallelQuickSort ncpu (arr, w) = Returned (sort arr, w')
       \<and> ((workerPool w = None \<or> workerPoolOnce w) \<longrightarrow>
            fst (getWorkerPoolStatus w') = fst (getWorkerPoolStatus w))
       \<and> trace w' = trace w @ evs \<and> acquired evs = released evs"
proof (cases "length arr < 2")
  case True
  then have "length arr \<le> 1" by simp
  then have "sort arr = arr" by (simp add: sorted01 sorted_sort_id)
  with True have "parallelQuickSort ncpu (arr, w) = Returned (sort arr, w)"
    by (simp add: parallelQuickSort_def)
  then show ?thesis by (intro exI[of _ w] exI[of _ "[]"]) simp
next
  case False
  let ?w = "initWorkerPool ncpu w"
  from parallelQuickSortHelper_struct[of 0 "[]" "int (length arr) - 1" arr "[]" ?w "int ncpu"]
  obtain w' evs where
    r: "parallelQuickSortHelper (arr, ?w) 0 (int (length arr) - 1) (int ncpu) = Returned (sort arr, w')"
       "workerPool w' = workerPool ?w" "trace w' = trace ?w @ evs" "acquired evs = released evs"
    by auto
  have "parallelQuickSort ncpu (arr, w) = Returned (sort arr, w')"
    using False r(1) by (simp add: parallelQuickSort_def)
  moreover have "fst (getWorkerPoolStatus w') = fst (getWorkerPoolStatus w)"
    if "workerPool w = None \<or> workerPoolOnce w"
    using r(2) initWorkerPool_occupancy[OF that, of ncpu] by (simp add: getWorkerPoolStatus_def)
  ultimately show ?thesis using r(3,4) by (simp add: initWorkerPool_trace)
qed

lemma parallelMergeSort_run:
  "\<exists>w' evs. parallelMergeSort ncpu (arr, w) = Returned (sort arr, w')
       \<and> ((workerPool w = None \<or> workerPoolOnce w) \<longrightarrow>
            fst (getWorkerPoolStatus w') = fst (getWorkerPoolStatus w))
       \<and> trace w' = trace w @ evs \<and> acquired evs = released evs"
proof -
  let ?w = "initWorkerPool ncpu w"
  from parallelMergeSortHelper_run[of arr "int ncpu" ?w]
  obtain w' evs where
    r: "parallelMergeSortHelper arr (int ncpu) ?w = Returned (sort arr, w')"
       "workerPool w' = workerPool ?w" "trace w' = trace ?w @ evs" "acquired evs = released evs"
    by auto
  have "parallelMergeSort ncpu (arr, w) = Returned (sort arr, w')"
    using r(1) by (simp add: parallelMergeSort_def)
  moreover have "fst (getWorkerPoolStatus w') = fst (getWorkerPoolStatus w)"
    if "workerPool w = None \<or> workerPoolOnce w"
    using r(2) initWorkerPool_occupancy[OF that, of ncpu] by (simp add: getWorkerPoolStatus_def)
  ultimately show ?thesis using r(3,4) by (simp add: initWorkerPool_trace)
qed

section \<open>Faults\<close>

lemma fork_task_panic:
  assumes "try_acquire zone w = (True, w1)" "par w1 = Panicked (x, w2)"
  shows "fork_task zone par seq w = Crashed (x, release w2)"
  using assms by (simp add: fork_task_def)

lemma fork_task_panic_pool:
  assumes e: "try_acquire zone w = (True, w1)" and p: "workerPool w2 = workerPool w1"
  shows "workerPool (release w2) = workerPool w"
proof -
  obtain ok w1' where t: "try_acquire zone w = (ok, w1')"
    "workerPool w1' = (if ok then map_option (\<lambda>g. g\<lparr>occ := occ g + 1\<rparr>) (workerPool w) else workerPool w)"
    by (rule try_acquire_effect)
  have "(ok, w1') = (True, w1)" using t(1)[symmetric] e by (rule trans)
  then have ok: "ok = True" and w1: "w1' = w1" by (simp_all only: prod.inject)
  have "workerPool w1 = map_option (\<lambda>g. g\<lparr>occ := occ g + 1\<rparr>) (workerPool w)"
    using t(2) unfolding ok w1 by simp
  then have "workerPool (release w2)
      = map_option (\<lambda>g. g\<lparr>occ := occ g - 1\<rparr>) (map_option (\<lambda>g. g\<lparr>occ := occ g + 1\<rparr>) (workerPool w))"
    by (simp only: release_effect p)
  then show "workerPool (release w2) = workerPool w"
    by (simp only: pool_restore)
qed







section \<open>Particular runs\<close>

lemma partition3Way_all_equal:
  assumes "0 < n"
  shows "partition3Way (replicate n c) 0 (int n - 1) = Inr (replicate n c, 0, int n - 1)"
proof -
  have ne: "replicate n c \<noteq> []" using assms by simp
  from partition3Way_struct[of 0 "[]" "int n - 1" "replicate n c" "[]"] ne
  obtain L E G pivot where
    part: "partition3Way (replicate n c) 0 (int n - 1)
            = Inr (L @ E @ G, int (length L), int (length L) + int (length E) - 1)"
    and E: "E \<noteq> []" and ms: "mset (L @ E @ G) = mset (replicate n c)"
    and z: "\<forall>x\<in>set L. x < pivot" "\<forall>x\<in>set E. x = pivot" "\<forall>x\<in>set G. pivot < x"
    by auto
  have "set (L @ E @ G) = set (replicate n c)" using ms by (rule mset_eq_setD)
  then have all: "set L \<union> set E \<union> set G = {c}" using assms by auto
  from E obtain e where "e \<in> set E" by (cases E) auto
  with all z(2) have p: "pivot = c" by auto
  have L: "L = []"
  proof (cases L)
    case (Cons x xs)
    with all z(1) p show ?thesis by auto
  qed simp
  have G: "G = []"
  proof (cases G)
    case (Cons x xs)
    with all z(3) p show ?thesis by auto
  qed simp
  have "length E = n" using arg_cong[OF ms, of size] L G by simp
  moreover have "\<And>y. y \<in> set E \<Longrightarrow> y = c" using all by auto
  ultimately have "E = replicate n c" by (rule replicate_eqI)
  with part L G show ?thesis by simp
qed

lemma parallelQuickSortHelper_delegates:
  assumes "depth \<le> 1 \<or> high - low + 1 \<le> getOptimalThreshold (int (length arr)) (high - low + 1)"
  shows "parallelQuickSortHelper (arr, w) low high depth = in_world (quickSortHelper arr low high) w"
proof (cases "low < high")
  case True
  with assms show ?thesis
    by (subst parallelQuickSortHelper.simps) (auto simp: Let_def)
next
  case False
  have "quickSortHelper arr low high = Inr arr"
    by (subst quickSortHelper.simps) (simp add: False)
  with False show ?thesis
    by (subst parallelQuickSortHelper.simps) (simp add: Let_def in_world_def)
qed

text \<open>
  Two scenarios of the specification: the six elements \<open>[5, 3, 8, 1, 9, 2]\<close> sorted
  sequentially, and an input below every threshold (fewer than 1000 elements) sorted by
  \<open>parallelQuickSort\<close>, which is the sequential sort with the log of the gate untouched.
\<close>

lemma scenario_A: "quickSort [5, 3, 8, 1, 9, 2] = Inr [1, 2, 3, 5, 8, 9]"
  by (simp add: quickSort_sort)

lemma scenario_C:
  assumes "length arr < 1000"
  shows "parallelQuickSort ncpu (arr, w)
           = (if length arr < 2 then Returned (arr, w)
              else in_world (quickSort arr) (initWorkerPool ncpu w))"
proof (cases "length arr < 2")
  case True
  then show ?thesis by (simp add: parallelQuickSort_def)
next
  case False
  have "int (length arr) - 1 - 0 + 1 \<le> getOptimalThreshold (int (length arr)) (int (length arr) - 1 - 0 + 1)"
    using assms by (simp add: getOptimalThreshold_def)
  then have "parallelQuickSortHelper (arr, initWorkerPool ncpu w) 0 (int (length arr) - 1) (int ncpu)
      = in_world (quickSortHelper arr 0 (int (length arr) - 1)) (initWorkerPool ncpu w)"
    by (intro parallelQuickSortHelper_delegates) simp
  with False show ?thesis by (simp add: parallelQuickSort_def quickSort_def)
qed

lemma parallelMergeSortHelper_forks:
  assumes "1 < length arr" "1 < depth"
  shows "parallelMergeSortHelper arr depth w =
     (case fork_task (int (length (take (length arr div 2) arr)))
             (parallelMergeSortHelper (take (length arr div 2) arr) (depth sdiv 2))
             (value_in_world (mergeSort (take (length arr div 2) arr))) w of
        Returned (left, w2) \<Rightarrow>
          (case fork_task (int (length (drop (length arr div 2) arr)))
                  (parallelMergeSortHelper (drop (length arr div 2) arr) (depth sdiv 2))
                  (value_in_world (mergeSort (drop (length arr div 2) arr))) w2 of
             Returned (right, w4) \<Rightarrow> Returned (merge left right, w4)
           | Panicked x \<Rightarrow> Crashed x
           | Crashed x \<Rightarrow> Crashed x)
      | Panicked x \<Rightarrow> Crashed x
      | Crashed x \<Rightarrow> Crashed x)"
proof -
  have "\<not> int (length arr) < getOptimalThreshold (int (length arr)) (int (length arr))"
    using getOptimalThreshold_le[of "int (length arr)" "int (length arr)"] by linarith
  then show ?thesis
    by (subst parallelMergeSortHelper.simps) (use assms in \<open>simp add: Let_def\<close>)
qed

lemma parallelMergeSortHelper_leaf:
  "length arr \<le> 1 \<Longrightarrow> parallelMergeSortHelper arr depth w = Returned (arr, w)"
  by (subst parallelMergeSortHelper.simps) simp

lemma parallelMergeSortHelper_depth1:
  "1 < length arr \<Longrightarrow> parallelMergeSortHelper arr 1 w = Returned (sort arr, w)"
  by (subst parallelMergeSortHelper.simps) (simp add: Let_def value_in_world_def mergeSort_sort)

lemma merge_replicate: "merge (replicate a x) (replicate b x) = replicate (a + b) x"
  using merge_sorted_sides[of "replicate a x" "replicate b x"]
  by (simp add: replicate_add[symmetric])

section \<open>The claims\<close>

text \<open>
  C1. For every input sequence \<open>S\<close>, \<open>quickSort\<close> returns (it does not panic) and leaves
  the slice in ascending order, holding the same elements as \<open>S\<close> with the same
  multiplicities; \<open>mergeSort\<close> returns a slice that is ascending and holds the same
  elements as \<open>S\<close> with the same multiplicities.
\<close>

theorem sequential_sorters_correct:
  "(\<exists>r. quickSort S = Inr r \<and> sorted r \<and> mset r = mset S) \<and>
   (\<exists>r. mergeSort S = Inr r \<and> sorted r \<and> mset r = mset S)"
  by (simp add: quickSort_sort mergeSort_sort)

text \<open>
  C2. For every input, every number of CPUs, every state of the gate and every
  interleaving, \<open>parallelQuickSort\<close> returns and leaves the slice with the contents
  \<open>quickSort\<close> leaves on the same input, and \<open>parallelMergeSort\<close> returns the slice
  \<open>mergeSort\<close> returns.
\<close>

theorem parallel_equals_sequential:
  "(\<exists>r w'. parallelQuickSort ncpu (arr, w) = Returned (r, w') \<and> quickSort arr = Inr r) \<and>
   (\<exists>r w'. parallelMergeSort ncpu (arr, w) = Returned (r, w') \<and> mergeSort arr = Inr r)"
proof -
  from parallelQuickSort_run[of ncpu arr w] obtain w1 where
    "parallelQuickSort ncpu (arr, w) = Returned (sort arr, w1)" by blast
  moreover from parallelMergeSort_run[of ncpu arr w] obtain w2 where
    "parallelMergeSort ncpu (arr, w) = Returned (sort arr, w2)" by blast
  ultimately show ?thesis
    by (simp add: quickSort_sort mergeSort_sort)
qed

text \<open>
  C3. Gate balance. In a process where the channel exists only once \<open>initWorkerPool\<close> has
  run, a parallel sort returns with the occupancy of the gate it found, and its log holds
  as many successful attempts as releases. The release is deferred: when the task that
  took the slot panics, the release is still logged before the program ends, and it puts
  the channel back as it was before the attempt.
\<close>

theorem gate_balance:
  assumes inv: "workerPool w = None \<or> workerPoolOnce w"
  shows
  "(\<exists>r w' evs. parallelQuickSort ncpu (arr, w) = Returned (r, w') \<and>
        fst (getWorkerPoolStatus w') = fst (getWorkerPoolStatus w) \<and>
        trace w' = trace w @ evs \<and> acquired evs = released evs) \<and>
   (\<exists>r w' evs. parallelMergeSort ncpu (arr, w) = Returned (r, w') \<and>
        fst (getWorkerPoolStatus w') = fst (getWorkerPoolStatus w) \<and>
        trace w' = trace w @ evs \<and> acquired evs = released evs) \<and>
   (try_acquire zone w = (True, w1) \<and> par w1 = Panicked (x, w2) \<longrightarrow>
        fork_task zone par seq w = Crashed (x, release w2) \<and>
        trace (release w2) = trace w2 @ [Release] \<and>
        (workerPool w2 = workerPool w1 \<longrightarrow> workerPool (release w2) = workerPool w))"
proof -
  have q: "\<exists>r w' evs. parallelQuickSort ncpu (arr, w) = Returned (r, w') \<and>
        fst (getWorkerPoolStatus w') = fst (getWorkerPoolStatus w) \<and>
        trace w' = trace w @ evs \<and> acquired evs = released evs"
    using parallelQuickSort_run[of ncpu arr w] inv by blast
  have m: "\<exists>r w' evs. parallelMergeSort ncpu (arr, w) = Returned (r, w') \<and>
        fst (getWorkerPoolStatus w') = fst (getWorkerPoolStatus w) \<and>
        trace w' = trace w @ evs \<and> acquired evs = released evs"
    using parallelMergeSort_run[of ncpu arr w] inv by blast
  have f: "try_acquire zone w = (True, w1) \<and> par w1 = Panicked (x, w2) \<longrightarrow>
        fork_task zone par seq w = Crashed (x, release w2) \<and>
        trace (release w2) = trace w2 @ [Release] \<and>
        (workerPool w2 = workerPool w1 \<longrightarrow> workerPool (release w2) = workerPool w)"
    using fork_task_panic[of zone w w1 par x w2 seq] fork_task_panic_pool[of zone w w1 w2]
      release_effect(1)[of w2]
    by blast
  from q m f show ?thesis by (intro conjI)
qed

theorem gate_balance_witness:
  "(workerPool (host_ready 2) = None \<or> workerPoolOnce (host_ready 2)) \<and>
   try_acquire 3 (host_ready 2)
     = (True, \<lparr>workerPool = Some \<lparr>cap = 2, occ = 1\<rparr>, workerPoolOnce = True, contention = [],
              trace = [TryAcquire 3 True]\<rparr>) \<and>
   fork_task 3 (\<lambda>w. Panicked ([5, 4 :: int], w)) (\<lambda>w. Returned ([4, 5], w)) (host_ready 2)
     = Crashed ([5, 4], \<lparr>workerPool = Some \<lparr>cap = 2, occ = 0\<rparr>, workerPoolOnce = True,
                         contention = [], trace = [TryAcquire 3 True, Release]\<rparr>) \<and>
   (\<exists>r w' evs. parallelQuickSort 2 ([3, 1, 2], host_ready 2) = Returned (r, w') \<and>
        fst (getWorkerPoolStatus w') = 0 \<and> acquired evs = released evs \<and> trace w' = evs)"
proof -
  let ?w1 = "\<lparr>workerPool = Some \<lparr>cap = 2, occ = 1\<rparr>, workerPoolOnce = True, contention = [],
              trace = [TryAcquire 3 True]\<rparr>"
  have inv: "workerPool (host_ready 2) = None \<or> workerPoolOnce (host_ready 2)"
    by (simp add: host_ready_def)
  have t: "try_acquire 3 (host_ready 2) = (True, ?w1)"
    by (simp add: try_acquire_def host_ready_def)
  note g = gate_balance[OF inv, of 2 "[3, 1, 2]" 3 ?w1 "\<lambda>w. Panicked ([5, 4 :: int], w)" "[5, 4]" ?w1
              "\<lambda>w. Returned ([4, 5], w)"]
  from g t have "fork_task 3 (\<lambda>w. Panicked ([5, 4 :: int], w)) (\<lambda>w. Returned ([4, 5], w)) (host_ready 2)
     = Crashed ([5, 4], release ?w1)"
    by simp
  moreover have "release ?w1 = \<lparr>workerPool = Some \<lparr>cap = 2, occ = 0\<rparr>, workerPoolOnce = True,
                         contention = [], trace = [TryAcquire 3 True, Release]\<rparr>"
    by (simp add: release_def)
  moreover from g have "\<exists>r w' evs. parallelQuickSort 2 ([3, 1, 2], host_ready 2) = Returned (r, w') \<and>
        fst (getWorkerPoolStatus w') = 0 \<and> acquired evs = released evs \<and> trace w' = evs"
    by (auto simp: host_ready_def getWorkerPoolStatus_def)
  ultimately show ?thesis using inv t by simp
qed

text \<open>
  C4. The claim holds for the quicksort scheduler (lemma
  \<open>parallelQuickSortHelper_delegates\<close>) and fails for the merge scheduler, which
  compares with \<open><\<close> where the quicksort scheduler compares with \<open><=\<close>: on two
  CPUs and the three elements \<open>[3, 1, 2]\<close> the threshold is 3, the size of the input,
  and the call still splits and attempts the gate for both halves instead of handing the
  whole slice to \<open>mergeSort\<close>.
\<close>

theorem parallelMergeSort_forks_at_threshold:
  "getOptimalThreshold (int (length [3, 1, 2 :: int])) (int (length [3, 1, 2 :: int])) = 3 \<and>
   parallelMergeSort 2 ([3, 1, 2], host_idle)
     = Returned ([1, 2, 3],
         \<lparr>workerPool = Some \<lparr>cap = 2, occ = 0\<rparr>, workerPoolOnce = True, contention = [],
          trace = [TryAcquire 1 True, Release, TryAcquire 2 True, Release]\<rparr>)"
proof -
  have m: "merge [3] [1, 2] = [1, 2, 3]"
    using merge_sorted_sides[of "[3]" "[1, 2]"] by simp
  have "parallelMergeSort 2 ([3, 1, 2], host_idle)
      = parallelMergeSortHelper [3, 1, 2] 2 (initWorkerPool 2 host_idle)"
    by (simp add: parallelMergeSort_def)
  also have "\<dots> = Returned ([1, 2, 3],
         \<lparr>workerPool = Some \<lparr>cap = 2, occ = 0\<rparr>, workerPoolOnce = True, contention = [],
          trace = [TryAcquire 1 True, Release, TryAcquire 2 True, Release]\<rparr>)"
    by (simp add: parallelMergeSortHelper_forks parallelMergeSortHelper_leaf
          parallelMergeSortHelper_depth1 fork_task_def try_acquire_def release_def
          initWorkerPool_def host_idle_def signed_divide_int_def m)
  finally show ?thesis by (simp add: getOptimalThreshold_def)
qed

text \<open>
  C5. The claim holds for the quicksort scheduler, whose every call reads the length of
  the whole slice, and fails for the merge scheduler, whose every call reads the length of
  its own half: on eight CPUs and 1000 elements the threshold of the top-level call is
  300, the call on a quarter of 250 elements computes 250, and it forks its halves of 125
  elements although 250 is below 300.
\<close>

theorem parallelMergeSort_threshold_from_half:
  "getOptimalThreshold (int (length (replicate 1000 (0::int)))) (int (length (replicate 1000 (0::int)))) = 300 \<and>
   getOptimalThreshold (int (length (replicate 250 (0::int)))) (int (length (replicate 250 (0::int)))) = 250 \<and>
   trace (world_of (parallelMergeSort 8 (replicate 1000 0, host_idle)))
     = [TryAcquire 500 True, TryAcquire 250 True, TryAcquire 125 True, Release,
        TryAcquire 125 True, Release, Release,
        TryAcquire 250 True, TryAcquire 125 True, Release, TryAcquire 125 True, Release, Release,
        Release,
        TryAcquire 500 True, TryAcquire 250 True, TryAcquire 125 True, Release,
        TryAcquire 125 True, Release, Release,
        TryAcquire 250 True, TryAcquire 125 True, Release, TryAcquire 125 True, Release, Release,
        Release]"
proof -
  have "parallelMergeSort 8 (replicate 1000 0, host_idle)
      = parallelMergeSortHelper (replicate 1000 0) 8 (initWorkerPool 8 host_idle)"
    by (simp add: parallelMergeSort_def)
  also have "trace (world_of \<dots>)
     = [TryAcquire 500 True, TryAcquire 250 True, TryAcquire 125 True, Release,
        TryAcquire 125 True, Release, Release,
        TryAcquire 250 True, TryAcquire 125 True, Release, TryAcquire 125 True, Release, Release,
        Release,
        TryAcquire 500 True, TryAcquire 250 True, TryAcquire 125 True, Release,
        TryAcquire 125 True, Release, Release,
        TryAcquire 250 True, TryAcquire 125 True, Release, TryAcquire 125 True, Release, Release,
        Release]"
    by (simp add: parallelMergeSortHelper_forks parallelMergeSortHelper_depth1
          fork_task_def try_acquire_def release_def merge_replicate
          initWorkerPool_def host_idle_def signed_divide_int_def)
  finally show ?thesis by (simp add: getOptimalThreshold_def)
qed



text \<open>
  C7, as the claim states it, fails: on two CPUs and 1000 equal elements the partition
  leaves two zones of size 0, and the fork step attempts the gate for each of them (and
  takes and releases a slot each time).
\<close>

theorem size_zero_zones_attempt_the_gate:
  "partition3Way (replicate 1000 0) 0 999 = Inr (replicate 1000 0, 0, 999) \<and>
   parallelQuickSort 2 (replicate 1000 0, host_idle)
     = Returned (replicate 1000 0,
         \<lparr>workerPool = Some \<lparr>cap = 2, occ = 0\<rparr>, workerPoolOnce = True, contention = [],
          trace = [TryAcquire 0 True, Release, TryAcquire 0 True, Release]\<rparr>)"
proof -
  have part: "partition3Way (replicate 1000 0) 0 999 = Inr (replicate 1000 0, 0, 999)"
    using partition3Way_all_equal[of 1000 0] by simp
  have empty: "parallelQuickSortHelper (a, w) low high 1 = Returned (a, w)" if "\<not> low < high"
    for a w low high
    by (subst parallelQuickSortHelper.simps) (simp add: that Let_def)
  have "parallelQuickSort 2 (replicate 1000 0, host_idle)
      = parallelQuickSortHelper (replicate 1000 0, initWorkerPool 2 host_idle) 0 999 2"
    by (simp add: parallelQuickSort_def)
  also have "\<dots> = Returned (replicate 1000 0,
         \<lparr>workerPool = Some \<lparr>cap = 2, occ = 0\<rparr>, workerPoolOnce = True, contention = [],
          trace = [TryAcquire 0 True, Release, TryAcquire 0 True, Release]\<rparr>)"
    by (subst parallelQuickSortHelper.simps)
       (simp add: part empty Let_def getOptimalThreshold_def fork_task_def try_acquire_def
          release_def initWorkerPool_def host_idle_def signed_divide_int_def)
  finally show ?thesis using part by simp
qed

text \<open>
  C7, amended. Every fork step of the parallel quicksort scheduler attempts the gate once
  for the left zone and once for the right zone, whatever their sizes. For a zone of
  size at most 1 nothing else happens: when the attempt succeeds the slot is released at
  once, and when it fails the log does not grow.
\<close>

theorem fork_step_attempts_both_zones:
  assumes "0 \<le> low" "low < high" "high < int (length arr)" "1 < depth"
    and "getOptimalThreshold (int (length arr)) (high - low + 1) < high - low + 1"
  shows "\<exists>a lt gt r w' ok1 evs1 ok2 evs2.
      partition3Way arr low high = Inr (a, lt, gt)
    \<and> parallelQuickSortHelper (arr, w) low high depth = Returned (r, w')
    \<and> trace w' = trace w @ (TryAcquire (lt - low) ok1 # evs1) @ (TryAcquire (high - gt) ok2 # evs2)
    \<and> (lt - low \<le> 1 \<longrightarrow> evs1 = (if ok1 then [Release] else []))
    \<and> (high - gt \<le> 1 \<longrightarrow> evs2 = (if ok2 then [Release] else []))"
proof -
  have l: "low \<le> high + 1" using assms(2) by simp
  from range_split[OF assms(1) l assms(3)] obtain pre mid post where
    s: "arr = pre @ mid @ post" "low = int (length pre)" "high = low + int (length mid) - 1"
    by blast
  have fork: "\<not> (depth \<le> 1 \<or> high - low + 1
                  \<le> getOptimalThreshold (int (length (pre @ mid @ post))) (high - low + 1))"
    using assms(4,5) unfolding s(1) by simp
  from parallelQuickSortHelper_fork[where post=post and w=w, OF s(2,3) assms(2) fork parallelQuickSortHelper_struct]
  show ?thesis unfolding s(1) by blast
qed

theorem fork_step_attempts_both_zones_witness:
  "(0::int) \<le> 0 \<and> (0::int) < 999 \<and> (999::int) < int (length (replicate 1000 (0::int))) \<and> (1::int) < 2 \<and>
   getOptimalThreshold (int (length (replicate 1000 (0::int)))) (999 - 0 + 1) < 999 - 0 + 1 \<and>
   (\<exists>r w' ok1 evs1 ok2 evs2.
      parallelQuickSortHelper (replicate 1000 0, host_idle) 0 999 2 = Returned (r, w')
    \<and> trace w' = (TryAcquire 0 ok1 # evs1) @ (TryAcquire 0 ok2 # evs2)
    \<and> evs1 = (if ok1 then [Release] else []) \<and> evs2 = (if ok2 then [Release] else []))"
proof -
  have h: "(0::int) \<le> 0" "(0::int) < 999" "(999::int) < int (length (replicate 1000 (0::int)))" "(1::int) < 2"
    "getOptimalThreshold (int (length (replicate 1000 (0::int)))) (999 - 0 + 1) < 999 - 0 + 1"
    by (simp_all add: getOptimalThreshold_def)
  have part: "partition3Way (replicate 1000 0) 0 999 = Inr (replicate 1000 0, 0, 999)"
    using partition3Way_all_equal[of 1000 0] by simp
  from fork_step_attempts_both_zones[OF h, of host_idle]
  have "\<exists>r w' ok1 evs1 ok2 evs2.
      parallelQuickSortHelper (replicate 1000 0, host_idle) 0 999 2 = Returned (r, w')
    \<and> trace w' = (TryAcquire 0 ok1 # evs1) @ (TryAcquire 0 ok2 # evs2)
    \<and> evs1 = (if ok1 then [Release] else []) \<and> evs2 = (if ok2 then [Release] else [])"
    unfolding part by (simp add: host_idle_def)
  with h show ?thesis by blast
qed

text \<open>
  C8. \<open>getOptimalThreshold\<close> does not depend on its second argument, and its value is
  the one of the table: the total size itself below 1000, 300 from 1000 to 9999, 800 from
  10000 to 99999, and 1500 from 100000 on.
\<close>

theorem getOptimalThreshold_table:
  "getOptimalThreshold totalSize c1 = getOptimalThreshold totalSize c2 \<and>
   (totalSize < 1000 \<longrightarrow> getOptimalThreshold totalSize c1 = totalSize) \<and>
   (1000 \<le> totalSize \<and> totalSize < 10000 \<longrightarrow> getOptimalThreshold totalSize c1 = 300) \<and>
   (10000 \<le> totalSize \<and> totalSize < 100000 \<longrightarrow> getOptimalThreshold totalSize c1 = 800) \<and>
   (100000 \<le> totalSize \<longrightarrow> getOptimalThreshold totalSize c1 = 1500)"
  by (simp add: getOptimalThreshold_def)

theorem getOptimalThreshold_table_witness:
  "getOptimalThreshold 999 5 = getOptimalThreshold 999 999 \<and>
   getOptimalThreshold 999 5 = 999 \<and> getOptimalThreshold 1000 5 = 300 \<and>
   getOptimalThreshold 9999 5 = 300 \<and> getOptimalThreshold 10000 5 = 800 \<and>
   getOptimalThreshold 99999 5 = 800 \<and> getOptimalThreshold 100000 5 = 1500"
  using getOptimalThreshold_table[of 999 5 999] getOptimalThreshold_table[of 1000 5 5]
    getOptimalThreshold_table[of 9999 5 5] getOptimalThreshold_table[of 10000 5 5]
    getOptimalThreshold_table[of 99999 5 5] getOptimalThreshold_table[of 100000 5 5]
  by simp

text \<open>
  C9. The merge sorter is stable. On two non-empty sides \<open>merge\<close> takes the head of the
  left side when its key is at most the key of the head of the right side, so also when
  the keys are equal. For every input of keyed elements \<open>mergeSort\<close> returns, sorted by
  key, with the same elements, and for every key the elements of that key come out in the
  order in which they came in. At the identity key these are \<open>mergeSort\<close> and \<open>merge\<close>
  of the program.
\<close>

theorem mergeSort_stable:
  fixes key :: "'a \<Rightarrow> int"
  shows "merge_by key (a # l) (b # r)
           = (if key a \<le> key b then a # merge_by key l (b # r) else b # merge_by key (a # l) r) \<and>
         (\<exists>ys. mergeSort_by key ps = Inr ys \<and> sorted (map key ys) \<and> mset ys = mset ps \<and>
               (\<forall>c. filter (\<lambda>p. key p = c) ys = filter (\<lambda>p. key p = c) ps)) \<and>
         mergeSort_by (\<lambda>x. x) xs = mergeSort xs \<and> merge_by (\<lambda>x. x) ls rs = merge ls rs"
proof (intro conjI)
  show "merge_by key (a # l) (b # r)
          = (if key a \<le> key b then a # merge_by key l (b # r) else b # merge_by key (a # l) r)"
    by (rule merge_by_Cons_Cons)
  show "\<exists>ys. mergeSort_by key ps = Inr ys \<and> sorted (map key ys) \<and> mset ys = mset ps \<and>
               (\<forall>c. filter (\<lambda>p. key p = c) ys = filter (\<lambda>p. key p = c) ps)"
    by (simp add: mergeSort_by_sort_key sort_key_stable)
  show "mergeSort_by (\<lambda>x. x) xs = mergeSort xs" by (rule mergeSort_by_id)
  show "merge_by (\<lambda>x. x) ls rs = merge ls rs" by (rule merge_by_id)
qed

theorem mergeSort_stable_witness:
  "\<exists>ys. mergeSort_by fst [(2 :: int, ''a''), (1, ''b''), (2, ''c''), (1, ''d'')] = Inr ys \<and>
        filter (\<lambda>p. fst p = 2) ys = [(2, ''a''), (2, ''c'')] \<and>
        filter (\<lambda>p. fst p = 1) ys = [(1, ''b''), (1, ''d'')]"
proof -
  let ?ps = "[(2 :: int, ''a''), (1, ''b''), (2, ''c''), (1, ''d'')]"
  from mergeSort_stable[where key=fst and ps="?ps"] obtain ys where
    ys: "mergeSort_by fst ?ps = Inr ys"
        "\<forall>c. filter (\<lambda>p. fst p = c) ys = filter (\<lambda>p. fst p = c) ?ps"
    by blast
  from ys(2)[rule_format, of 2] ys(2)[rule_format, of 1]
  have "filter (\<lambda>p. fst p = 2) ys = [(2, ''a''), (2, ''c'')]"
       "filter (\<lambda>p. fst p = 1) ys = [(1, ''b''), (1, ''d'')]"
    by simp_all
  with ys(1) show ?thesis by blast
qed

text \<open>
  C10. For every slice and every range with \<open>0 \<le> low \<le> high < len(arr)\<close>, each of
  \<open>quickSortHelper\<close>, \<open>insertionSort\<close>, \<open>partition3Way\<close> and \<open>medianOfThree\<close> (on
  the positions \<open>partition3Way\<close> passes to it) returns without a panic, keeps the length
  of the slice, and leaves every element at an index outside \<open>[low, high]\<close> as it was.
\<close>

theorem in_place_sorters_frame:
  assumes "0 \<le> low" "low \<le> high" "high < int (length arr)"
  shows "(\<exists>a. quickSortHelper arr low high = Inr a \<and> length a = length arr \<and>
             (\<forall>n. n < length arr \<and> (int n < low \<or> high < int n) \<longrightarrow> a ! n = arr ! n)) \<and>
         (\<exists>a. insertionSort arr low high = Inr a \<and> length a = length arr \<and>
             (\<forall>n. n < length arr \<and> (int n < low \<or> high < int n) \<longrightarrow> a ! n = arr ! n)) \<and>
         (\<exists>a lt gt. partition3Way arr low high = Inr (a, lt, gt) \<and> length a = length arr \<and>
             (\<forall>n. n < length arr \<and> (int n < low \<or> high < int n) \<longrightarrow> a ! n = arr ! n)) \<and>
         (\<exists>a. medianOfThree arr low ((low + high) sdiv 2) high = Inr a \<and> length a = length arr \<and>
             (\<forall>n. n < length arr \<and> (int n < low \<or> high < int n) \<longrightarrow> a ! n = arr ! n))"
proof -
  have l: "low \<le> high + 1" using assms(2) by simp
  from quickSortHelper_frame_low[OF assms(1) l assms(3)]
       insertionSort_frame_low[OF assms(1) l assms(3)]
       partition3Way_frame_low[OF assms] medianOfThree_frame_low[OF assms]
  show ?thesis by blast
qed

theorem in_place_sorters_frame_witness:
  "(0::int) \<le> 1 \<and> (1::int) \<le> 3 \<and> (3::int) < int (length [9, 3, 2, 1, 7 :: int]) \<and>
   (\<exists>a. quickSortHelper [9, 3, 2, 1, 7] 1 3 = Inr a \<and> a ! 0 = 9 \<and> a ! 4 = 7) \<and>
   (\<exists>a lt gt. partition3Way [9, 3, 2, 1, 7] 1 3 = Inr (a, lt, gt) \<and> a ! 0 = 9 \<and> a ! 4 = 7)"
proof -
  have h: "(0::int) \<le> 1" "(1::int) \<le> 3" "(3::int) < int (length [9, 3, 2, 1, 7 :: int])"
    by simp_all
  from in_place_sorters_frame[OF h] obtain a where
    a: "quickSortHelper [9, 3, 2, 1, 7] 1 3 = Inr a"
       "\<forall>n. n < length [9, 3, 2, 1, 7 :: int] \<and> (int n < 1 \<or> 3 < int n) \<longrightarrow> a ! n = [9, 3, 2, 1, 7] ! n"
    by blast
  from in_place_sorters_frame[OF h] obtain b lt gt where
    b: "partition3Way [9, 3, 2, 1, 7] 1 3 = Inr (b, lt, gt)"
       "\<forall>n. n < length [9, 3, 2, 1, 7 :: int] \<and> (int n < 1 \<or> 3 < int n) \<longrightarrow> b ! n = [9, 3, 2, 1, 7] ! n"
    by blast
  from a(2)[rule_format, of 0] a(2)[rule_format, of 4] have "a ! 0 = 9" "a ! 4 = 7" by simp_all
  moreover from b(2)[rule_format, of 0] b(2)[rule_format, of 4] have "b ! 0 = 9" "b ! 4 = 7" by simp_all
  ultimately show ?thesis using a(1) b(1) h by blast
qed

end
